theory Spec2Isabelle
  imports Complex_Main
begin

section \<open>Text, separators and record framing\<close>

text \<open>
  Python strings are sequences of Unicode code points.  The two separators of
  \<^verbatim>\<open>consts.py\<close> are the code points U+241F and U+241E, which do not fit a
  byte, so a text is a list of code points.
\<close>

type_synonym str = "nat list"

definition KEY_VALUE_SEPARATOR :: nat where
  "KEY_VALUE_SEPARATOR = 0x241F"

definition ITEM_SEPARATOR :: nat where
  "ITEM_SEPARATOR = 0x241E"

definition NEWLINE :: nat where
  "NEWLINE = 0x0A"

definition ANCHOR_BATCH_SIZE :: nat where
  "ANCHOR_BATCH_SIZE = 200"

definition COMMENT_BATCH_SIZE :: nat where
  "COMMENT_BATCH_SIZE = 50"

text \<open>
  The code points that \<^verbatim>\<open>str.strip()\<close> removes when it is called without an
  argument: those for which \<^verbatim>\<open>str.isspace()\<close> holds.
\<close>

definition is_space :: "nat \<Rightarrow> bool" where
  "is_space c \<longleftrightarrow>
     (0x09 \<le> c \<and> c \<le> 0x0D) \<or> (0x1C \<le> c \<and> c \<le> 0x20) \<or> c = 0x85 \<or> c = 0xA0 \<or>
     c = 0x1680 \<or> (0x2000 \<le> c \<and> c \<le> 0x200A) \<or> c = 0x2028 \<or> c = 0x2029 \<or>
     c = 0x202F \<or> c = 0x205F \<or> c = 0x3000"

definition strip :: "str \<Rightarrow> str" where
  "strip s = rev (dropWhile is_space (rev (dropWhile is_space s)))"

text \<open>
  \<^verbatim>\<open>f"{item_separator}{key}{key_value_separator}{value}\n"\<close>: the line that one
  write of the flush appends to the link file.
\<close>

definition record_line :: "str \<Rightarrow> str \<Rightarrow> str" where
  "record_line key val = ITEM_SEPARATOR # key @ KEY_VALUE_SEPARATOR # val @ [NEWLINE]"

text \<open>
  The parsing shared by \<^verbatim>\<open>_load_last_written_key\<close> and
  \<^verbatim>\<open>read_persisted_links\<close>: strip the line, drop one leading item separator,
  and split at the first key-value separator.  A line without the key-value
  separator gives \<open>None\<close>.
\<close>

definition remove_item_separator :: "str \<Rightarrow> str" where
  "remove_item_separator line =
     (case line of [] \<Rightarrow> []
      | c # rest \<Rightarrow> if c = ITEM_SEPARATOR then rest else c # rest)"

definition split_key_value :: "str \<Rightarrow> (str \<times> str) option" where
  "split_key_value line =
     (if KEY_VALUE_SEPARATOR \<in> set line
      then Some (takeWhile (\<lambda>c. c \<noteq> KEY_VALUE_SEPARATOR) line,
                 tl (dropWhile (\<lambda>c. c \<noteq> KEY_VALUE_SEPARATOR) line))
      else None)"

definition parse_line :: "str \<Rightarrow> (str \<times> str) option" where
  "parse_line line = split_key_value (remove_item_separator (strip line))"

section \<open>Exceptions and the logger\<close>

datatype error = OSError | TypeError | ZeroDivisionError | PlaywrightError

datatype level = DEBUG | INFO | WARNING | ERROR

section \<open>The link store of AnchorCrawler\<close>

text \<open>
  \<open>links\<close> is the dictionary \<^verbatim>\<open>self.links\<close> in insertion order (its keys are
  distinct), \<open>last_written_key\<close> the resume cursor, \<open>output_file\<close> the lines of
  the link file (\<open>None\<close> when the file does not exist) and \<open>logged\<close> the levels
  of the messages sent to the logger.
\<close>

record anchor_crawler =
  links :: "(str \<times> str) list"
  last_written_key :: "str option"
  batch_size :: nat
  max_links :: nat
  scroll_retries :: nat
  output_file :: "str list option"
  logged :: "level list"

text \<open>
  What the file system does during one flush.  The code opens the file with
  the default buffering and never flushes it: a line that \<^verbatim>\<open>f.write\<close> has
  accepted is in the buffer, and the buffer is written out when it is full,
  inside a later \<^verbatim>\<open>f.write\<close>, and when the \<^verbatim>\<open>with\<close> block closes the file.
  So an I/O error shows either in a call of \<^verbatim>\<open>f.write\<close> or at the close.
  \<^item> \<open>Open_fails\<close>: opening the file raises.
  \<^item> \<open>Write_fails n k\<close>: the call of \<^verbatim>\<open>f.write\<close> with number \<open>n\<close> (counted
    from 0) raises.
  \<^item> \<open>Close_fails k\<close>: every call of \<^verbatim>\<open>f.write\<close> returns, and closing the
    file raises.
  \<^item> \<open>Io_ok\<close>: nothing raises.

  In the two middle cases \<open>k\<close> says how much was stored all the same: the
  first \<open>k\<close> of the lines handed to \<^verbatim>\<open>f.write\<close> have reached the file, the
  others have not.
\<close>

datatype io = Open_fails | Write_fails nat nat | Close_fails nat | Io_ok

fun next_write :: "io \<Rightarrow> io" where
  "next_write (Write_fails (Suc n) k) = Write_fails n k"
| "next_write i = i"

fun write_raises :: "io \<Rightarrow> bool" where
  "write_raises (Write_fails 0 k) = True"
| "write_raises i = False"

fun close_raises :: "io \<Rightarrow> bool" where
  "close_raises (Close_fails k) = True"
| "close_raises i = False"

fun stored :: "io \<Rightarrow> str list \<Rightarrow> str list" where
  "stored (Write_fails n k) buffer = take k buffer"
| "stored (Close_fails k) buffer = take k buffer"
| "stored i buffer = buffer"

fun lines_of :: "str list option \<Rightarrow> str list" where
  "lines_of None = []"
| "lines_of (Some ls) = ls"

text \<open>
  \<^verbatim>\<open>_filtered_link_generator\<close>: the pairs the generator yields, for a cursor
  that does not change while it runs.
\<close>

fun filtered_links :: "bool \<Rightarrow> str option \<Rightarrow> (str \<times> str) list \<Rightarrow> (str \<times> str) list" where
  "filtered_links start_yielding cursor [] = []"
| "filtered_links start_yielding cursor ((key, val) # rest) =
     (if \<not> start_yielding
      then (if Some key = cursor
            then filtered_links True cursor rest
            else filtered_links False cursor rest)
      else (key, val) # filtered_links True cursor rest)"

definition filtered_link_generator :: "anchor_crawler \<Rightarrow> (str \<times> str) list" where
  "filtered_link_generator c = filtered_links (last_written_key c = None) (last_written_key c) (links c)"

text \<open>
  The loop of \<^verbatim>\<open>_save_links_incrementally\<close> with the generator inlined: the
  generator compares each key with \<^verbatim>\<open>self.last_written_key\<close> as it is at
  that moment, and the loop body updates that field after each call of
  \<^verbatim>\<open>f.write\<close> that returns.  The result is the crawler after the loop, the
  lines handed to \<^verbatim>\<open>f.write\<close>, and the exception that ended the loop, if
  any.
\<close>

fun write_links ::
  "io \<Rightarrow> bool \<Rightarrow> (str \<times> str) list \<Rightarrow> str list \<Rightarrow> anchor_crawler
   \<Rightarrow> anchor_crawler \<times> str list \<times> error option" where
  "write_links fs start_yielding [] buffer c = (c, buffer, None)"
| "write_links fs start_yielding ((key, val) # rest) buffer c =
     (if \<not> start_yielding
      then (if Some key = last_written_key c
            then write_links fs True rest buffer c
            else write_links fs False rest buffer c)
      else (if write_raises fs then (c, buffer @ [record_line key val], Some OSError)
            else write_links (next_write fs) True rest (buffer @ [record_line key val])
                   (c\<lparr>last_written_key := Some key\<rparr>)))"

text \<open>
  \<^verbatim>\<open>_save_links_incrementally\<close>.  Opening the file for appending creates
  it.  When nothing raises, every line handed to \<^verbatim>\<open>f.write\<close> is in the file
  after the close; when a write or the close raises, the file has what the
  file system stored, and the exception is caught and logged.
\<close>

definition save_links_incrementally :: "io \<Rightarrow> anchor_crawler \<Rightarrow> anchor_crawler" where
  "save_links_incrementally fs c =
     (if fs = Open_fails then c\<lparr>logged := logged c @ [ERROR]\<rparr>
      else (case write_links fs (last_written_key c = None) (links c) [] c of
              (c', buffer, Some e) \<Rightarrow>
                c'\<lparr>output_file := Some (lines_of (output_file c) @ stored fs buffer),
                   logged := logged c' @ [ERROR]\<rparr>
            | (c', buffer, None) \<Rightarrow>
                if close_raises fs
                then c'\<lparr>output_file := Some (lines_of (output_file c) @ stored fs buffer),
                        logged := logged c' @ [ERROR]\<rparr>
                else c'\<lparr>output_file := Some (lines_of (output_file c) @ buffer),
                        logged := logged c' @ [INFO]\<rparr>))"

text \<open>
  The working-set records observed after the cursor, in the specification's
  words: with no cursor every record, otherwise the records that follow the
  first record whose key is the cursor (none when no record has that key).
\<close>

definition records_after_cursor :: "str option \<Rightarrow> (str \<times> str) list \<Rightarrow> (str \<times> str) list" where
  "records_after_cursor cursor rs =
     (case cursor of None \<Rightarrow> rs
      | Some k \<Rightarrow> tl (dropWhile (\<lambda>r. fst r \<noteq> k) rs))"

definition cursor_after :: "str option \<Rightarrow> (str \<times> str) list \<Rightarrow> str option" where
  "cursor_after cur emitted = (if emitted = [] then cur else Some (fst (last emitted)))"

section \<open>Startup recovery of the cursor\<close>

definition MAX_LINKS :: nat where
  "MAX_LINKS = 10000"

datatype read_io = Read_fails | Read_ok

text \<open>
  \<^verbatim>\<open>_load_last_written_key\<close>.  The second component of the result counts the
  lines that were read from the file: \<^verbatim>\<open>f.readlines()\<close> reads every line.
\<close>

definition load_last_written_key :: "read_io \<Rightarrow> anchor_crawler \<Rightarrow> anchor_crawler \<times> nat" where
  "load_last_written_key rd c =
     (case output_file c of
        None \<Rightarrow> (c, 0)
      | Some file \<Rightarrow>
          if rd = Read_fails then (c\<lparr>logged := logged c @ [ERROR]\<rparr>, 0)
          else if file \<noteq> [] then
            (case parse_line (last file) of
               Some (key, val) \<Rightarrow>
                 (c\<lparr>last_written_key := Some key, logged := logged c @ [INFO]\<rparr>, length file)
             | None \<Rightarrow> (c, length file))
          else (c, length file))"

text \<open>
  \<^verbatim>\<open>AnchorCrawler.__init__\<close> with its default arguments, for a link file in
  the given state.
\<close>

definition AnchorCrawler_init :: "read_io \<Rightarrow> str list option \<Rightarrow> anchor_crawler \<times> nat" where
  "AnchorCrawler_init rd file =
     load_last_written_key rd
       \<lparr>links = [], last_written_key = None, batch_size = ANCHOR_BATCH_SIZE,
        max_links = MAX_LINKS, scroll_retries = 5, output_file = file, logged = []\<rparr>"

section \<open>Replaying the persisted links\<close>

text \<open>
  An entry of the comment directory, as \<^verbatim>\<open>pathlib\<close> presents it: its stem and
  its suffix.  The comment file of an address has the address as stem and the
  suffix \<^verbatim>\<open>.txt\<close>.
\<close>

record path =
  stem :: str
  suffix :: str

definition ascii :: "string \<Rightarrow> str" where
  "ascii s = map of_char s"

definition comment_path :: "str \<Rightarrow> path" where
  "comment_path hash_key = \<lparr>stem = hash_key, suffix = ascii ''.txt''\<rparr>"

definition completed_hashes :: "path list \<Rightarrow> str set" where
  "completed_hashes dir = set (map stem (filter (\<lambda>file. suffix file = ascii ''.txt'') dir))"

fun persisted_links :: "str set \<Rightarrow> str list \<Rightarrow> (str \<times> str) list" where
  "persisted_links completed [] = []"
| "persisted_links completed (line # rest) =
     (case parse_line line of
        None \<Rightarrow> persisted_links completed rest
      | Some (key, val) \<Rightarrow>
          if key \<in> completed then persisted_links completed rest
          else (key, val) # persisted_links completed rest)"

definition skipped_messages :: "str set \<Rightarrow> str list \<Rightarrow> level list" where
  "skipped_messages completed file =
     map (\<lambda>line. INFO)
       (filter (\<lambda>line. case parse_line line of None \<Rightarrow> False | Some (key, val) \<Rightarrow> key \<in> completed) file)"

text \<open>
  \<^verbatim>\<open>read_persisted_links\<close>: the pairs the generator yields and what it logs.
  The first argument is the result of listing the comment directory, the second
  says whether the link file can be read.
\<close>

definition read_persisted_links ::
  "error + path list \<Rightarrow> read_io \<Rightarrow> anchor_crawler \<Rightarrow> (str \<times> str) list \<times> level list" where
  "read_persisted_links listing rd c =
     (case listing of
        Inl e \<Rightarrow> ([], [ERROR])
      | Inr dir \<Rightarrow>
          (case output_file c of
             None \<Rightarrow> ([], [INFO])
           | Some file \<Rightarrow>
               if rd = Read_fails then ([], [INFO, ERROR])
               else (persisted_links (completed_hashes dir) file,
                     INFO # skipped_messages (completed_hashes dir) file)))"

text \<open>
  The replay stream in the specification's words: the pairs parsed from the
  well-formed lines, in log order, without those whose address is completed.
\<close>

definition replay_spec :: "str set \<Rightarrow> str list \<Rightarrow> (str \<times> str) list" where
  "replay_spec completed file =
     filter (\<lambda>r. fst r \<notin> completed) (List.map_filter parse_line file)"

section \<open>Partitioning the replay stream\<close>

fun link_generator_loop :: "int \<Rightarrow> int \<Rightarrow> int \<Rightarrow> 'a list \<Rightarrow> 'a list" where
  "link_generator_loop i instance_id total_instances [] = []"
| "link_generator_loop i instance_id total_instances (x # rest) =
     (if i mod total_instances = instance_id
      then x # link_generator_loop (i + 1) instance_id total_instances rest
      else link_generator_loop (i + 1) instance_id total_instances rest)"

text \<open>
  \<^verbatim>\<open>get_link_generator\<close>: the items it yields and the exception that ends it,
  if any (\<^verbatim>\<open>i % 0\<close> raises at the first item).
\<close>

definition get_link_generator :: "'a list \<Rightarrow> int \<Rightarrow> int \<Rightarrow> 'a list \<times> error option" where
  "get_link_generator all_links instance_id total_instances =
     (if total_instances = 0 \<and> all_links \<noteq> [] then ([], Some ZeroDivisionError)
      else (link_generator_loop 0 instance_id total_instances all_links, None))"

text \<open>
  What the tasks of \<^verbatim>\<open>run_all_instances\<close> draw from one pass over the same
  stream: task \<open>i\<close> of \<open>range(total_instances)\<close> filters with
  \<open>instance_id = i\<close>.
\<close>

definition run_all_instances :: "int \<Rightarrow> 'a list \<Rightarrow> 'a list list" where
  "run_all_instances total_instances all_links =
     map (\<lambda>i. fst (get_link_generator all_links (int i) total_instances))
       [0..<nat total_instances]"

text \<open>The stream with its 0-based enumeration index attached to each item.\<close>

definition indexed :: "'a list \<Rightarrow> (nat \<times> 'a) list" where
  "indexed xs = zip [0..<length xs] xs"

section \<open>The idle timeout of a worker\<close>

text \<open>
  \<^verbatim>\<open>_wait_for_links\<close> reads the event loop's clock once at the start, once
  after each link it has yielded, and once for each test of the final
  \<^verbatim>\<open>while\<close>.  The clock is given as the list of the values these readings
  return, in order.  When the list ends before the generator does, the
  generator has not finished.
\<close>

record 'a waited =
  yielded :: "'a list"
  warnings :: "level list"
  finished :: bool

fun idle_wait :: "real \<Rightarrow> real \<Rightarrow> real list \<Rightarrow> bool" where
  "idle_wait start_time timeout [] = False"
| "idle_wait start_time timeout (now # clock) =
     (if now - start_time < timeout then idle_wait start_time timeout clock else True)"

fun wait_loop :: "real \<Rightarrow> real \<Rightarrow> 'a list \<Rightarrow> real list \<Rightarrow> 'a waited" where
  "wait_loop start_time timeout [] clock =
     \<lparr>yielded = [],
      warnings = (if idle_wait start_time timeout clock then [WARNING] else []),
      finished = idle_wait start_time timeout clock\<rparr>"
| "wait_loop start_time timeout (link # rest) [] =
     \<lparr>yielded = [link], warnings = [], finished = False\<rparr>"
| "wait_loop start_time timeout (link # rest) (now # clock) =
     (let w = wait_loop now timeout rest clock in w\<lparr>yielded := link # yielded w\<rparr>)"

definition wait_for_links :: "'a list \<Rightarrow> real \<Rightarrow> real list \<Rightarrow> 'a waited" where
  "wait_for_links all_links timeout clock =
     (case clock of
        [] \<Rightarrow> \<lparr>yielded = [], warnings = [], finished = False\<rparr>
      | now # clock' \<Rightarrow> wait_loop now timeout all_links clock')"

section \<open>Page-interaction plugins\<close>

text \<open>
  One element matched by a plugin's selector, as the renderer behaves while the
  plugin handles it: whether scrolling it into view succeeds, the outcome of
  each successive call of its \<^verbatim>\<open>click\<close>, whether the page settles
  afterwards and whether the pointer can be moved.
\<close>

record element =
  scroll_ok :: bool
  click_results :: "bool list"
  settle_ok :: bool
  mouse_ok :: bool

text \<open>
  \<^verbatim>\<open>page_to_do_plugins.py\<close> starts with \<^verbatim>\<open>import random\<close> and then calls
  \<^verbatim>\<open>random()\<close>: the name is bound to the module, and calling a module raises
  \<^verbatim>\<open>TypeError\<close>.  The functions below take the outcome of that call as
  their first argument; \<open>random_call\<close> is the outcome in this module.
\<close>

definition random_call :: "error + real" where
  "random_call = Inl TypeError"

text \<open>
  \<^verbatim>\<open>_safe_click\<close> with the remaining number of attempts.  The function returns
  nothing in either case; the first component of the result records whether a
  call of \<^verbatim>\<open>click\<close> succeeded.
\<close>

fun safe_click :: "error + real \<Rightarrow> nat \<Rightarrow> bool list \<Rightarrow> bool \<times> level list" where
  "safe_click rnd 0 results = (False, [])"
| "safe_click rnd (Suc n) results =
     (case rnd of
        Inl e \<Rightarrow> (case safe_click rnd n results of (clicked, lg) \<Rightarrow> (clicked, WARNING # lg))
      | Inr t \<Rightarrow>
          (case results of
             True # rs \<Rightarrow> (True, [INFO])
           | False # rs \<Rightarrow> (case safe_click rnd n rs of (clicked, lg) \<Rightarrow> (clicked, WARNING # lg))
           | [] \<Rightarrow> (case safe_click rnd n [] of (clicked, lg) \<Rightarrow> (clicked, WARNING # lg))))"

text \<open>
  The loop over the matched buttons: \<open>total_clicks\<close>, the indices of the
  buttons on which a click succeeded, and the log.
\<close>

fun click_each :: "error + real \<Rightarrow> nat \<Rightarrow> element list \<Rightarrow> nat \<times> nat list \<times> level list" where
  "click_each rnd i [] = (0, [], [])"
| "click_each rnd i (button # rest) =
     (case click_each rnd (Suc i) rest of
        (total_clicks, clicked, lg) \<Rightarrow>
          if \<not> scroll_ok button then (total_clicks, clicked, WARNING # lg)
          else
            (case safe_click rnd 3 (click_results button) of
               (ok, lg_click) \<Rightarrow>
                 let clicked' = (if ok then i # clicked else clicked) in
                 if \<not> settle_ok button then (total_clicks, clicked', DEBUG # lg_click @ WARNING # lg)
                 else (case rnd of
                         Inl e \<Rightarrow> (total_clicks, clicked', DEBUG # lg_click @ WARNING # lg)
                       | Inr t \<Rightarrow>
                           if \<not> mouse_ok button
                           then (total_clicks, clicked', DEBUG # lg_click @ WARNING # lg)
                           else (Suc total_clicks, clicked', DEBUG # lg_click @ DEBUG # lg))))"

text \<open>
  \<^verbatim>\<open>_click_buttons_once\<close> on the result of the selector query (\<open>None\<close> when
  the query raises): the returned boolean, the indices of the buttons that
  were clicked, and the log.
\<close>

definition click_buttons_once :: "error + real \<Rightarrow> element list option \<Rightarrow> bool \<times> nat list \<times> level list" where
  "click_buttons_once rnd query =
     (case query of
        None \<Rightarrow> (False, [], [ERROR])
      | Some [] \<Rightarrow> (False, [], [INFO])
      | Some buttons \<Rightarrow>
          (case click_each rnd 0 buttons of
             (total_clicks, clicked, lg) \<Rightarrow> (0 < total_clicks, clicked, INFO # lg @ [INFO])))"

datatype selector = Close_button | Expand_buttons | More_replies_buttons | View_more_comments

type_synonym page = "selector \<Rightarrow> element list option"

definition click_close_button :: "page \<Rightarrow> bool \<times> nat list \<times> level list" where
  "click_close_button page = click_buttons_once random_call (page Close_button)"

definition click_expand_buttons :: "page \<Rightarrow> bool \<times> nat list \<times> level list" where
  "click_expand_buttons page = click_buttons_once random_call (page Expand_buttons)"

definition click_more_replies_buttons :: "page \<Rightarrow> bool \<times> nat list \<times> level list" where
  "click_more_replies_buttons page = click_buttons_once random_call (page More_replies_buttons)"

definition click_view_more_comments :: "page \<Rightarrow> bool \<times> nat list \<times> level list" where
  "click_view_more_comments page = click_buttons_once random_call (page View_more_comments)"

section \<open>Comment extraction for one link\<close>

text \<open>
  \<open>files\<close> is the comment directory: the lines of each comment file, \<open>None\<close>
  for a file that does not exist.  \<open>cc_output_file\<close> is
  \<^verbatim>\<open>self.output_file\<close>.
\<close>

record comment_crawler =
  cc_output_file :: "path option"
  files :: "path \<Rightarrow> str list option"
  cc_logged :: "level list"

fun write_comments :: "io \<Rightarrow> str list \<Rightarrow> str list \<Rightarrow> str list \<times> error option" where
  "write_comments fs [] buffer = (buffer, None)"
| "write_comments fs (comment # rest) buffer =
     (if write_raises fs then (buffer @ [comment @ [NEWLINE]], Some OSError)
      else write_comments (next_write fs) rest (buffer @ [comment @ [NEWLINE]]))"

text \<open>
  \<^verbatim>\<open>_save_comments\<close>.  Opening a file for appending creates it; opening
  \<^verbatim>\<open>None\<close> raises, which the function catches like any other exception.
  The writes are buffered as in the link file.
\<close>

definition save_comments :: "io \<Rightarrow> path option \<Rightarrow> str list \<Rightarrow> comment_crawler \<Rightarrow> comment_crawler" where
  "save_comments fs file_name comments cc =
     (case file_name of
        None \<Rightarrow> cc\<lparr>cc_logged := cc_logged cc @ [ERROR]\<rparr>
      | Some p \<Rightarrow>
          if fs = Open_fails then cc\<lparr>cc_logged := cc_logged cc @ [ERROR]\<rparr>
          else (case write_comments fs comments [] of
                  (buffer, Some e) \<Rightarrow>
                    cc\<lparr>files := (files cc)(p \<mapsto> lines_of (files cc p) @ stored fs buffer),
                       cc_logged := cc_logged cc @ [ERROR]\<rparr>
                | (buffer, None) \<Rightarrow>
                    if close_raises fs
                    then cc\<lparr>files := (files cc)(p \<mapsto> lines_of (files cc p) @ stored fs buffer),
                            cc_logged := cc_logged cc @ [ERROR]\<rparr>
                    else cc\<lparr>files := (files cc)(p \<mapsto> lines_of (files cc p) @ buffer),
                            cc_logged := cc_logged cc @ [INFO]\<rparr>))"

text \<open>
  What one iteration of the extraction loop observes: the snippets
  \<^verbatim>\<open>_extract_comments\<close> returns (after the plugins have run), the result of
  \<^verbatim>\<open>_scroll_page\<close>, and what the file system does if the iteration flushes;
  or an exception that reaches the handler of the loop body.
\<close>

datatype iteration = Iteration "str list" bool io | Unexpected_error

definition is_new_content_loaded :: "str list \<Rightarrow> str list \<Rightarrow> str list" where
  "is_new_content_loaded comments new_comments = filter (\<lambda>c. c \<notin> set comments) new_comments"

text \<open>
  The \<^verbatim>\<open>while retries < max_retries\<close> loop of \<^verbatim>\<open>_fetch_comments\<close>, with
  \<^verbatim>\<open>max_retries = 5\<close>.  The result is \<open>None\<close> when the observations end
  before the loop does.
\<close>

fun fetch_loop ::
  "iteration list \<Rightarrow> str list \<Rightarrow> nat \<Rightarrow> nat \<Rightarrow> comment_crawler \<Rightarrow> (str list \<times> comment_crawler) option" where
  "fetch_loop [] comments retries flush_idx cc =
     (if retries < 5 then None else Some (comments, cc))"
| "fetch_loop (Unexpected_error # rest) comments retries flush_idx cc =
     (if retries < 5 then Some (comments, cc\<lparr>cc_logged := cc_logged cc @ [ERROR]\<rparr>)
      else Some (comments, cc))"
| "fetch_loop (Iteration new_comments scrolled fs # rest) comments retries flush_idx cc =
     (if retries < 5 then
        (let added_comments = is_new_content_loaded comments new_comments;
             comments' = (if added_comments \<noteq> [] then comments @ added_comments else comments);
             flush = (added_comments \<noteq> [] \<and> comments' \<noteq> []
                      \<and> int (length comments') - int flush_idx \<ge> int COMMENT_BATCH_SIZE);
             cc' = (if flush then save_comments fs (cc_output_file cc) (drop flush_idx comments') cc
                    else cc);
             flush_idx' = (if flush then length comments' else flush_idx);
             retries' = (if \<not> scrolled \<and> added_comments = [] then retries + 1 else 0)
         in fetch_loop rest comments' retries' flush_idx' cc')
      else Some (comments, cc))"

text \<open>
  The visit of one link: whether \<^verbatim>\<open>page.goto\<close> succeeds, the iterations of
  the loop, and what the file system does at the final save.
\<close>

record visit =
  goto_ok :: bool
  iterations :: "iteration list"
  final_io :: io

definition fetch_comments :: "visit \<Rightarrow> comment_crawler \<Rightarrow> (str list \<times> comment_crawler) option" where
  "fetch_comments v cc =
     (if \<not> goto_ok v then Some ([], cc\<lparr>cc_logged := cc_logged cc @ [INFO, ERROR]\<rparr>)
      else (case fetch_loop (iterations v) [] 0 0 (cc\<lparr>cc_logged := cc_logged cc @ [INFO]\<rparr>) of
              None \<Rightarrow> None
            | Some (comments, cc') \<Rightarrow> Some (comments, cc'\<lparr>cc_logged := cc_logged cc' @ [INFO]\<rparr>)))"

text \<open>
  The body of the \<^verbatim>\<open>async for\<close> of \<^verbatim>\<open>process_links\<close> for one link.
\<close>

definition process_link :: "visit \<Rightarrow> str \<Rightarrow> comment_crawler \<Rightarrow> comment_crawler option" where
  "process_link v hash_key cc =
     (let file_name = comment_path hash_key;
          cc1 = cc\<lparr>cc_output_file := Some file_name\<rparr>
      in if files cc1 file_name \<noteq> None then Some (cc1\<lparr>cc_logged := cc_logged cc1 @ [INFO]\<rparr>)
         else (case fetch_comments v cc1 of
                 None \<Rightarrow> None
               | Some (comments, cc2) \<Rightarrow> Some (save_comments (final_io v) (Some file_name) comments cc2)))"

section \<open>The scroll loop of link discovery\<close>

text \<open>
  An element of the feed: its \<^verbatim>\<open>href\<close>, no \<^verbatim>\<open>href\<close>, or an element whose
  attribute cannot be read any more.  \<open>hash_link\<close> (MD5, as hexadecimal
  digits) and \<open>urljoin\<close> (with the target URL as base) are library functions
  and are parameters here.
\<close>

datatype href = Href str | No_href | Stale_element

fun collect_links ::
  "(str \<Rightarrow> str) \<Rightarrow> (str \<Rightarrow> str) \<Rightarrow> href list \<Rightarrow> (str \<times> str) list \<Rightarrow> (str \<times> str) list \<times> error option" where
  "collect_links hash_link urljoin [] ls = (ls, None)"
| "collect_links hash_link urljoin (Stale_element # rest) ls = (ls, Some PlaywrightError)"
| "collect_links hash_link urljoin (No_href # rest) ls = collect_links hash_link urljoin rest ls"
| "collect_links hash_link urljoin (Href link # rest) ls =
     (if link = [] then collect_links hash_link urljoin rest ls
      else (let full_link = urljoin link; hashed = hash_link full_link
            in if hashed \<in> fst ` set ls then collect_links hash_link urljoin rest ls
               else collect_links hash_link urljoin rest (ls @ [(hashed, full_link)])))"

text \<open>
  What one iteration of the scroll loop observes: an exception while scrolling
  or querying, or the matched elements, what the file system does if the
  iteration flushes, and the scroll height (\<open>None\<close> when reading it raises).
\<close>

datatype scroll_obs = Scroll_raises | Scrolled "href list" io "int option"

datatype loop_step = Break anchor_crawler | Next_iteration anchor_crawler int nat

definition scroll_iteration ::
  "(str \<Rightarrow> str) \<Rightarrow> (str \<Rightarrow> str) \<Rightarrow> scroll_obs \<Rightarrow> int \<Rightarrow> nat \<Rightarrow> anchor_crawler \<Rightarrow> loop_step" where
  "scroll_iteration hash_link urljoin ob prev_height retries c =
     (case ob of
        Scroll_raises \<Rightarrow> Break (c\<lparr>logged := logged c @ [ERROR]\<rparr>)
      | Scrolled elements fs height \<Rightarrow>
          (case collect_links hash_link urljoin elements (links c) of
             (ls, Some e) \<Rightarrow> Break (c\<lparr>links := ls, logged := logged c @ [ERROR]\<rparr>)
           | (ls, None) \<Rightarrow>
               let c1 = c\<lparr>links := ls\<rparr> in
               if batch_size c1 = 0 then Break (c1\<lparr>logged := logged c1 @ [ERROR]\<rparr>)
               else
                 let c2 = (if length (links c1) mod batch_size c1 = 0
                           then save_links_incrementally fs c1 else c1) in
                 (case height of
                    None \<Rightarrow> Break (c2\<lparr>logged := logged c2 @ [ERROR]\<rparr>)
                  | Some curr_height \<Rightarrow>
                      if curr_height = prev_height then
                        (if retries + 1 \<ge> scroll_retries c2
                         then Break (c2\<lparr>logged := logged c2 @ [WARNING]\<rparr>)
                         else Next_iteration c2 curr_height (retries + 1))
                      else Next_iteration c2 curr_height 0)))"

text \<open>
  \<^verbatim>\<open>scroll_and_collect_links\<close>: \<open>None\<close> when the observations end before the
  loop does.
\<close>

fun scroll_loop ::
  "(str \<Rightarrow> str) \<Rightarrow> (str \<Rightarrow> str) \<Rightarrow> scroll_obs list \<Rightarrow> int \<Rightarrow> nat \<Rightarrow> anchor_crawler \<Rightarrow> anchor_crawler option" where
  "scroll_loop hash_link urljoin [] prev_height retries c =
     (if length (links c) < max_links c then None else Some c)"
| "scroll_loop hash_link urljoin (ob # rest) prev_height retries c =
     (if length (links c) < max_links c then
        (case scroll_iteration hash_link urljoin ob prev_height retries c of
           Break c' \<Rightarrow> Some c'
         | Next_iteration c' prev_height' retries' \<Rightarrow>
             scroll_loop hash_link urljoin rest prev_height' retries' c')
      else Some c)"

definition scroll_and_collect_links ::
  "(str \<Rightarrow> str) \<Rightarrow> (str \<Rightarrow> str) \<Rightarrow> scroll_obs list \<Rightarrow> anchor_crawler \<Rightarrow> anchor_crawler option" where
  "scroll_and_collect_links hash_link urljoin obs c = scroll_loop hash_link urljoin obs 0 0 c"

text \<open>
  Whether an iteration in which the working set grows from \<open>before\<close> to
  \<open>after\<close> records crosses a multiple of the batch size.
\<close>

definition crosses_threshold :: "nat \<Rightarrow> nat \<Rightarrow> nat \<Rightarrow> bool" where
  "crosses_threshold bsize before after \<longleftrightarrow> before div bsize < after div bsize"

text \<open>The crawler in the result of one iteration of the scroll loop.\<close>

definition step_crawler :: "loop_step \<Rightarrow> anchor_crawler" where
  "step_crawler s = (case s of Break c \<Rightarrow> c | Next_iteration c h r \<Rightarrow> c)"


section \<open>The flush of the working set\<close>


lemma filtered_links_True: "filtered_links True cur ls = ls"
  by (induction ls) auto

lemma filtered_links_False_Some:
  "filtered_links False (Some k) ls = tl (dropWhile (\<lambda>r. fst r \<noteq> k) ls)"
  by (induction ls) (auto simp: filtered_links_True)

lemma filtered_links_after_cursor:
  "filtered_links (cur = None) cur ls = records_after_cursor cur ls"
  by (cases cur) (simp_all add: records_after_cursor_def filtered_links_True filtered_links_False_Some)

lemma write_links_filtered:
  "write_links fs s ls buf c = write_links fs True (filtered_links s (last_written_key c) ls) buf c"
proof (induction ls arbitrary: fs s buf c)
  case Nil
  show ?case by simp
next
  case (Cons r rest)
  obtain key val where r: "r = (key, val)" by (cases r)
  show ?case
  proof (cases s)
    case False
    then show ?thesis using Cons.IH r by simp
  next
    case True
    let ?c' = "c\<lparr>last_written_key := Some key\<rparr>"
    let ?buf' = "buf @ [record_line key val]"
    have "write_links (next_write fs) True rest ?buf' ?c'
        = write_links (next_write fs) True (filtered_links True (last_written_key ?c') rest) ?buf' ?c'"
      by (rule Cons.IH)
    then show ?thesis using True r by (simp add: filtered_links_True)
  qed
qed

lemma write_links_quiet:
  assumes "fs = Io_ok \<or> fs = Close_fails k"
  shows "write_links fs True rs buf c
         = (c\<lparr>last_written_key := cursor_after (last_written_key c) rs\<rparr>,
            buf @ map (\<lambda>(k, v). record_line k v) rs, None)"
proof (induction rs arbitrary: buf c)
  case Nil
  show ?case by (simp add: cursor_after_def)
next
  case (Cons r rest)
  obtain key val where r: "r = (key, val)" by (cases r)
  have quiet: "\<not> write_raises fs" "next_write fs = fs" using assms by auto
  show ?case
    using Cons [of "buf @ [record_line key val]" "c\<lparr>last_written_key := Some key\<rparr>"] r quiet
    by (simp add: cursor_after_def)
qed

lemma write_links_memory:
  "links (fst (write_links fs s rs buf c)) = links c
   \<and> logged (fst (write_links fs s rs buf c)) = logged c
   \<and> output_file (fst (write_links fs s rs buf c)) = output_file c"
  by (induction fs s rs buf c rule: write_links.induct) auto


lemma after_last_key:
  "distinct (map fst (xs @ ys)) \<Longrightarrow> xs \<noteq> [] \<Longrightarrow>
   records_after_cursor (Some (fst (last xs))) (xs @ ys) = ys"
proof (induction xs)
  case Nil
  then show ?case by simp
next
  case (Cons x xs)
  show ?case
  proof (cases "xs = []")
    case True
    then show ?thesis by (simp add: records_after_cursor_def)
  next
    case False
    then have a: "fst (last xs) \<in> fst ` set xs" by simp
    have b: "fst x \<notin> fst ` set xs" using Cons.prems by simp
    from a b have "fst x \<noteq> fst (last xs)" by metis
    then show ?thesis using Cons False by (simp add: records_after_cursor_def)
  qed
qed

lemma after_key_suffix:
  "distinct (map fst rs) \<Longrightarrow> n < length rs \<Longrightarrow>
   records_after_cursor (Some (fst (rs ! n))) rs = drop (Suc n) rs"
proof -
  assume d: "distinct (map fst rs)" and n: "n < length rs"
  have "rs = take (Suc n) rs @ drop (Suc n) rs" by simp
  moreover have "take (Suc n) rs \<noteq> []" using n by auto
  moreover have "last (take (Suc n) rs) = rs ! n" using n
    by (simp add: take_Suc_conv_app_nth)
  ultimately show ?thesis using after_last_key [of "take (Suc n) rs" "drop (Suc n) rs"] d
    by simp
qed

lemma tl_suffix: "\<exists>p. xs = p @ tl xs"
  by (cases xs) auto

lemma after_cursor_suffix:
  "\<exists>pre. rs = pre @ records_after_cursor cur rs"
proof (cases cur)
  case None
  then show ?thesis by (simp add: records_after_cursor_def)
next
  case (Some k)
  have "rs = takeWhile (\<lambda>r. fst r \<noteq> k) rs @ dropWhile (\<lambda>r. fst r \<noteq> k) rs" by simp
  moreover have "\<exists>p. dropWhile (\<lambda>r. fst r \<noteq> k) rs = p @ tl (dropWhile (\<lambda>r. fst r \<noteq> k) rs)"
    by (rule tl_suffix)
  ultimately show ?thesis using Some
    by (metis append.assoc records_after_cursor_def option.simps(5))
qed

lemma after_cursor_twice:
  assumes "distinct (map fst rs)"
  shows "records_after_cursor (cursor_after cur (records_after_cursor cur rs)) rs = []"
proof (cases "records_after_cursor cur rs = []")
  case True
  then show ?thesis by (simp add: cursor_after_def)
next
  case False
  obtain pre where pre: "rs = pre @ records_after_cursor cur rs"
    using after_cursor_suffix by blast
  then have "last rs = last (records_after_cursor cur rs)" using False
    by (metis last_appendR)
  moreover have "rs \<noteq> []" using pre False by auto
  ultimately show ?thesis using after_last_key [of rs "[]"] assms False
    by (simp add: cursor_after_def)
qed

lemma cursor_in_set_after:
  "k \<in> fst ` set rs \<Longrightarrow> distinct (map fst rs) \<Longrightarrow>
   cursor_after (Some k) (records_after_cursor (Some k) rs) = Some (fst (last rs))"
proof (induction rs)
  case Nil
  then show ?case by simp
next
  case (Cons r rs)
  show ?case
  proof (cases "fst r = k")
    case True
    then show ?thesis by (simp add: records_after_cursor_def cursor_after_def)
  next
    case False
    then have "k \<in> fst ` set rs" using Cons.prems by auto
    moreover then have "rs \<noteq> []" by auto
    ultimately show ?thesis using Cons False
      by (simp add: records_after_cursor_def cursor_after_def)
  qed
qed


lemma write_links_from_cursor:
  "write_links fs (last_written_key c = None) (links c) [] c
   = write_links fs True (records_after_cursor (last_written_key c) (links c)) [] c"
  using write_links_filtered [of fs "last_written_key c = None" "links c" "[]" c]
  by (simp add: filtered_links_after_cursor)

lemma flush_quiet:
  assumes "fs = Io_ok \<or> fs = Close_fails k"
  shows "save_links_incrementally fs c
         = c\<lparr>last_written_key :=
                cursor_after (last_written_key c) (records_after_cursor (last_written_key c) (links c)),
              output_file :=
                Some (lines_of (output_file c) @
                      stored fs (map (\<lambda>(k, v). record_line k v)
                                   (records_after_cursor (last_written_key c) (links c)))),
              logged := logged c @ [if close_raises fs then ERROR else INFO]\<rparr>"
  using assms
  by (auto simp: save_links_incrementally_def write_links_from_cursor write_links_quiet [OF assms])

lemma flush_file:
  "output_file (save_links_incrementally Io_ok c)
   = Some (lines_of (output_file c) @
           map (\<lambda>(k, v). record_line k v) (records_after_cursor (last_written_key c) (links c)))"
  by (simp add: flush_quiet [of Io_ok 0])

lemma flush_key:
  "last_written_key (save_links_incrementally Io_ok c)
   = cursor_after (last_written_key c) (records_after_cursor (last_written_key c) (links c))"
  by (simp add: flush_quiet [of Io_ok 0])

lemma flush_links: "links (save_links_incrementally fs c) = links c"
proof (cases "fs = Open_fails")
  case True
  then show ?thesis by (simp add: save_links_incrementally_def)
next
  case False
  obtain c' buffer e
    where w: "write_links fs (last_written_key c = None) (links c) [] c = (c', buffer, e)"
    by (cases "write_links fs (last_written_key c = None) (links c) [] c") auto
  have "links c' = links c"
    using write_links_memory [of fs "last_written_key c = None" "links c" "[]" c] w by simp
  then show ?thesis using False w
    by (cases e) (simp_all add: save_links_incrementally_def)
qed

text \<open>
  Claim C1.  For every working set and every cursor, the generator yields the
  records of the working set observed after the cursor, and a flush whose
  writes all succeed appends exactly these records to the link file, in
  iteration order, and leaves the cursor at the last record written (unchanged
  when nothing was written); the working set is not changed.  As the keys of
  the working set are distinct, a second flush appends nothing; and when the
  cursor is absent or is a key of the working set, a flush after new records
  have been added to the working set appends exactly the new records.
\<close>

theorem flush_emits_after_cursor:
  "filtered_link_generator c = records_after_cursor (last_written_key c) (links c)
   \<and> output_file (save_links_incrementally Io_ok c)
     = Some (lines_of (output_file c) @
             map (\<lambda>(k, v). record_line k v) (records_after_cursor (last_written_key c) (links c)))
   \<and> last_written_key (save_links_incrementally Io_ok c)
     = cursor_after (last_written_key c) (records_after_cursor (last_written_key c) (links c))
   \<and> links (save_links_incrementally Io_ok c) = links c
   \<and> (distinct (map fst (links c)) \<longrightarrow>
        output_file (save_links_incrementally Io_ok (save_links_incrementally Io_ok c))
        = output_file (save_links_incrementally Io_ok c))
   \<and> (distinct (map fst (links c @ news)) \<and>
      (last_written_key c = None \<or> (\<exists>r \<in> set (links c). last_written_key c = Some (fst r))) \<longrightarrow>
        output_file (save_links_incrementally Io_ok
                       ((save_links_incrementally Io_ok c)\<lparr>links := links c @ news\<rparr>))
        = Some (lines_of (output_file (save_links_incrementally Io_ok c)) @
                map (\<lambda>(k, v). record_line k v) news))"
proof (intro conjI impI)
  let ?c1 = "save_links_incrementally Io_ok c"
  let ?em = "records_after_cursor (last_written_key c) (links c)"
  show "filtered_link_generator c = ?em"
    by (simp add: filtered_link_generator_def filtered_links_after_cursor)
  show "output_file ?c1 = Some (lines_of (output_file c) @ map (\<lambda>(k, v). record_line k v) ?em)"
    by (rule flush_file)
  show key1: "last_written_key ?c1 = cursor_after (last_written_key c) ?em"
    by (rule flush_key)
  show "links ?c1 = links c"
    by (rule flush_links)
  {
    assume d: "distinct (map fst (links c))"
    have "records_after_cursor (last_written_key ?c1) (links ?c1) = []"
      using after_cursor_twice [OF d] by (simp add: key1 flush_links)
    then show "output_file (save_links_incrementally Io_ok ?c1) = output_file ?c1"
      by (simp add: flush_file [of ?c1] flush_file [of c])
  }
  {
    assume h: "distinct (map fst (links c @ news)) \<and>
      (last_written_key c = None \<or> (\<exists>r \<in> set (links c). last_written_key c = Some (fst r)))"
    let ?c2 = "?c1\<lparr>links := links c @ news\<rparr>"
    have d: "distinct (map fst (links c))" using h by simp
    have "records_after_cursor (last_written_key ?c1) (links c @ news) = news"
    proof (cases "links c = []")
      case True
      then have "last_written_key c = None" using h by auto
      then show ?thesis using True by (simp add: key1 records_after_cursor_def cursor_after_def)
    next
      case False
      have "last_written_key ?c1 = Some (fst (last (links c)))"
      proof (cases "last_written_key c")
        case None
        then show ?thesis using False by (simp add: key1 records_after_cursor_def cursor_after_def)
      next
        case (Some k)
        then have "k \<in> fst ` set (links c)" using h by auto
        then show ?thesis using cursor_in_set_after [OF _ d] Some by (simp add: key1)
      qed
      then show ?thesis using after_last_key [of "links c" news] h False by simp
    qed
    then have "records_after_cursor (last_written_key ?c2) (links ?c2) = news" by simp
    then show "output_file (save_links_incrementally Io_ok ?c2)
        = Some (lines_of (output_file ?c1) @ map (\<lambda>(k, v). record_line k v) news)"
      by (simp add: flush_file [of ?c2])
  }
qed

theorem flush_emits_after_cursor_witness:
  "distinct (map fst [([1::nat], [10::nat]), ([2], [20])])
   \<and> distinct (map fst ([([1::nat], [10::nat]), ([2], [20])] @ [([3], [30]), ([4], [40])]))
   \<and> (\<exists>r \<in> set [([1::nat], [10::nat]), ([2], [20])]. Some [1] = Some (fst r))
   \<and> output_file (save_links_incrementally Io_ok
        \<lparr>links = [([1], [10]), ([2], [20])], last_written_key = Some [1], batch_size = 200,
         max_links = 10000, scroll_retries = 5,
         output_file = Some [record_line [1] [10]], logged = []\<rparr>)
     = Some [record_line [1] [10], record_line [2] [20]]
   \<and> output_file (save_links_incrementally Io_ok (save_links_incrementally Io_ok
        \<lparr>links = [([1], [10]), ([2], [20])], last_written_key = Some [1], batch_size = 200,
         max_links = 10000, scroll_retries = 5,
         output_file = Some [record_line [1] [10]], logged = []\<rparr>))
     = Some [record_line [1] [10], record_line [2] [20]]
   \<and> output_file (save_links_incrementally Io_ok
        ((save_links_incrementally Io_ok
            \<lparr>links = [([1], [10]), ([2], [20])], last_written_key = Some [1], batch_size = 200,
             max_links = 10000, scroll_retries = 5,
             output_file = Some [record_line [1] [10]], logged = []\<rparr>)
          \<lparr>links := [([1], [10]), ([2], [20])] @ [([3], [30]), ([4], [40])]\<rparr>))
     = Some [record_line [1] [10], record_line [2] [20], record_line [3] [30], record_line [4] [40]]"
  using flush_emits_after_cursor
    [of "\<lparr>links = [([1], [10]), ([2], [20])], last_written_key = Some [1], batch_size = 200,
             max_links = 10000, scroll_retries = 5,
             output_file = Some [record_line [1] [10]], logged = []\<rparr>"
        "[([3], [30]), ([4], [40])]"]
  by (simp add: records_after_cursor_def)

section \<open>Failures of the file system during a flush\<close>

lemma write_comments_quiet:
  assumes "fs = Io_ok \<or> fs = Close_fails k"
  shows "write_comments fs cs buf = (buf @ map (\<lambda>c. c @ [NEWLINE]) cs, None)"
proof (induction cs arbitrary: buf)
  case Nil
  show ?case by simp
next
  case (Cons c cs)
  have quiet: "\<not> write_raises fs" "next_write fs = fs" using assms by auto
  show ?case using Cons [of "buf @ [c @ [NEWLINE]]"] quiet by simp
qed

lemma save_comments_quiet:
  assumes "fs = Io_ok \<or> fs = Close_fails k"
  shows "save_comments fs (Some p) cs cc
         = cc\<lparr>files := (files cc)(p \<mapsto> lines_of (files cc p) @ stored fs (map (\<lambda>c. c @ [NEWLINE]) cs)),
              cc_logged := cc_logged cc @ [if close_raises fs then ERROR else INFO]\<rparr>"
  using assms
  by (auto simp: save_comments_def write_comments_quiet [OF assms])

text \<open>
  A write that raises inside the loop, on a flush of three records of which
  nothing is stored: the cursor has moved to the second record, and the next
  flush writes the third record only.  The same for comments: the error is
  logged and the call returns.
\<close>

lemma failed_write_skips_buffered_records:
  "save_links_incrementally (Write_fails 2 0)
     \<lparr>links = [([1], [101]), ([2], [102]), ([3], [103])], last_written_key = None,
      batch_size = 200, max_links = 10000, scroll_retries = 5, output_file = Some [], logged = []\<rparr>
   = \<lparr>links = [([1], [101]), ([2], [102]), ([3], [103])], last_written_key = Some [2],
      batch_size = 200, max_links = 10000, scroll_retries = 5, output_file = Some [], logged = [ERROR]\<rparr>
   \<and> save_links_incrementally Io_ok
     \<lparr>links = [([1], [101]), ([2], [102]), ([3], [103])], last_written_key = Some [2],
      batch_size = 200, max_links = 10000, scroll_retries = 5, output_file = Some [], logged = [ERROR]\<rparr>
   = \<lparr>links = [([1], [101]), ([2], [102]), ([3], [103])], last_written_key = Some [3],
      batch_size = 200, max_links = 10000, scroll_retries = 5,
      output_file = Some [record_line [3] [103]], logged = [ERROR, INFO]\<rparr>"
  by (simp add: save_links_incrementally_def numeral_2_eq_2)

lemma failed_comment_write_is_logged:
  "save_comments (Close_fails k) (Some p) cs cc
   = cc\<lparr>files := (files cc)(p \<mapsto> lines_of (files cc p) @ take k (map (\<lambda>c. c @ [NEWLINE]) cs)),
        cc_logged := cc_logged cc @ [ERROR]\<rparr>"
  by (simp add: save_comments_quiet [of "Close_fails k" k])

text \<open>
  Claim C9 has the cursor left at the last record whose write succeeded, and
  the data in memory still to be had by a later flush.  The writes are
  buffered.  When the pending records fit the buffer and the file cannot be
  written, every \<^verbatim>\<open>f.write\<close> returns and the error comes at the close:
  the error is logged and the call returns, but the cursor is then at the last
  pending record whatever part of the buffer was stored, and a later flush,
  even one that succeeds, appends nothing.  The records that were not stored
  stay in the working set and are never written.
\<close>

theorem unstored_records_are_never_written:
  "distinct (map fst (links c)) \<and> records_after_cursor (last_written_key c) (links c) \<noteq> [] \<longrightarrow>
     last_written_key (save_links_incrementally (Close_fails k) c)
       = Some (fst (last (records_after_cursor (last_written_key c) (links c))))
   \<and> output_file (save_links_incrementally (Close_fails k) c)
       = Some (lines_of (output_file c) @
               take k (map (\<lambda>(k, v). record_line k v)
                         (records_after_cursor (last_written_key c) (links c))))
   \<and> logged (save_links_incrementally (Close_fails k) c) = logged c @ [ERROR]
   \<and> links (save_links_incrementally (Close_fails k) c) = links c
   \<and> output_file (save_links_incrementally Io_ok (save_links_incrementally (Close_fails k) c))
       = output_file (save_links_incrementally (Close_fails k) c)"
proof (intro impI conjI)
  assume h: "distinct (map fst (links c)) \<and> records_after_cursor (last_written_key c) (links c) \<noteq> []"
  let ?em = "records_after_cursor (last_written_key c) (links c)"
  let ?c1 = "save_links_incrementally (Close_fails k) c"
  have c1: "?c1 = c\<lparr>last_written_key := cursor_after (last_written_key c) ?em,
                     output_file := Some (lines_of (output_file c) @
                                          stored (Close_fails k) (map (\<lambda>(k, v). record_line k v) ?em)),
                     logged := logged c @ [if close_raises (Close_fails k) then ERROR else INFO]\<rparr>"
    by (rule flush_quiet) simp
  show key1: "last_written_key ?c1 = Some (fst (last ?em))"
    using h by (simp add: c1 cursor_after_def)
  show file1: "output_file ?c1
       = Some (lines_of (output_file c) @ take k (map (\<lambda>(k, v). record_line k v) ?em))"
    by (simp add: c1)
  show "logged ?c1 = logged c @ [ERROR]" by (simp add: c1)
  show links1: "links ?c1 = links c" by (simp add: c1)
  have "last_written_key ?c1 = cursor_after (last_written_key c) ?em"
    by (simp add: c1)
  then have "records_after_cursor (last_written_key ?c1) (links ?c1) = []"
    using after_cursor_twice [of "links c" "last_written_key c"] h links1 by simp
  then show "output_file (save_links_incrementally Io_ok ?c1) = output_file ?c1"
    by (simp add: flush_file [of ?c1] file1)
qed

theorem unstored_records_are_never_written_witness:
  "distinct (map fst [([1::nat], [101::nat]), ([2], [102])])
   \<and> records_after_cursor None [([1], [101]), ([2], [102])] \<noteq> []
   \<and> save_links_incrementally (Close_fails 0)
       \<lparr>links = [([1], [101]), ([2], [102])], last_written_key = None, batch_size = 200,
        max_links = 10000, scroll_retries = 5, output_file = Some [], logged = []\<rparr>
     = \<lparr>links = [([1], [101]), ([2], [102])], last_written_key = Some [2], batch_size = 200,
        max_links = 10000, scroll_retries = 5, output_file = Some [], logged = [ERROR]\<rparr>
   \<and> output_file (save_links_incrementally Io_ok (save_links_incrementally (Close_fails 0)
       \<lparr>links = [([1], [101]), ([2], [102])], last_written_key = None, batch_size = 200,
        max_links = 10000, scroll_retries = 5, output_file = Some [], logged = []\<rparr>))
     = Some []"
  using unstored_records_are_never_written
    [of "\<lparr>links = [([1], [101]), ([2], [102])], last_written_key = None, batch_size = 200,
        max_links = 10000, scroll_retries = 5, output_file = Some [], logged = []\<rparr>" 0]
  by (simp add: save_links_incrementally_def records_after_cursor_def)

section \<open>Parsing, replay and recovery\<close>


lemma separator_not_space: "\<not> is_space KEY_VALUE_SEPARATOR" "\<not> is_space ITEM_SEPARATOR"
  by (simp_all add: is_space_def KEY_VALUE_SEPARATOR_def ITEM_SEPARATOR_def)

lemma separators_differ: "ITEM_SEPARATOR \<noteq> KEY_VALUE_SEPARATOR"
  by (simp add: KEY_VALUE_SEPARATOR_def ITEM_SEPARATOR_def)

lemma dropWhile_keeps:
  "\<not> P x \<Longrightarrow> x \<in> set (dropWhile P xs) \<longleftrightarrow> x \<in> set xs"
  by (induction xs) auto

lemma strip_keeps_separator:
  "KEY_VALUE_SEPARATOR \<in> set (strip line) \<longleftrightarrow> KEY_VALUE_SEPARATOR \<in> set line"
  by (simp add: strip_def dropWhile_keeps separator_not_space)

lemma remove_keeps_separator:
  "KEY_VALUE_SEPARATOR \<in> set (remove_item_separator line) \<longleftrightarrow> KEY_VALUE_SEPARATOR \<in> set line"
  using separators_differ by (cases line) (auto simp: remove_item_separator_def)

lemma parse_line_None: "parse_line line = None \<longleftrightarrow> KEY_VALUE_SEPARATOR \<notin> set line"
  by (simp add: parse_line_def split_key_value_def remove_keeps_separator strip_keeps_separator)

lemma dropWhile_stop: "\<not> P y \<Longrightarrow> dropWhile P (xs @ y # ys) = dropWhile P xs @ y # ys"
  by (induction xs) auto

lemma strip_framed:
  "\<not> is_space a \<Longrightarrow> \<not> is_space b \<Longrightarrow>
   strip (a # key @ b # rest) = a # key @ b # rev (dropWhile is_space (rev rest))"
  by (simp add: strip_def dropWhile_stop)

lemma split_at_separator:
  "KEY_VALUE_SEPARATOR \<notin> set key \<Longrightarrow> split_key_value (key @ KEY_VALUE_SEPARATOR # v) = Some (key, v)"
  by (induction key) (auto simp: split_key_value_def)

lemma parse_record_line:
  assumes "KEY_VALUE_SEPARATOR \<notin> set key"
  shows "parse_line (record_line key val)
         = Some (key, rev (dropWhile is_space (rev (val @ [NEWLINE]))))"
proof -
  have "strip (record_line key val)
        = ITEM_SEPARATOR # key @ KEY_VALUE_SEPARATOR # rev (dropWhile is_space (rev (val @ [NEWLINE])))"
    unfolding record_line_def using separator_not_space by (rule strip_framed [rotated])
  then show ?thesis using assms
    by (simp add: parse_line_def remove_item_separator_def split_at_separator)
qed

lemma parse_record_line_exact:
  assumes "KEY_VALUE_SEPARATOR \<notin> set key" and "\<forall>c \<in> set val. \<not> is_space c"
  shows "parse_line (record_line key val) = Some (key, val)"
proof -
  have "is_space NEWLINE" by (simp add: is_space_def NEWLINE_def)
  moreover have "dropWhile is_space (rev val) = rev val"
    using assms(2) by (cases "rev val") auto
  ultimately have "rev (dropWhile is_space (rev (val @ [NEWLINE]))) = val" by simp
  then show ?thesis using parse_record_line [OF assms(1), of val] by simp
qed

lemma persisted_links_spec:
  "persisted_links completed lns = replay_spec completed lns"
proof (induction lns)
  case Nil
  show ?case by (simp add: replay_spec_def List.map_filter_simps)
next
  case (Cons line rest)
  then show ?case
    by (cases "parse_line line") (auto simp: replay_spec_def List.map_filter_simps)
qed

lemma replay_spec_append:
  "replay_spec completed (xs @ ys) = replay_spec completed xs @ replay_spec completed ys"
  by (simp add: replay_spec_def List.map_filter_def)

lemma replay_spec_malformed:
  "KEY_VALUE_SEPARATOR \<notin> set bad \<Longrightarrow> replay_spec completed (bad # ys) = replay_spec completed ys"
  using parse_line_None [of bad] by (simp add: replay_spec_def List.map_filter_simps)

lemma replay_spec_not_completed:
  "r \<in> set (replay_spec completed file) \<Longrightarrow> fst r \<notin> completed"
  by (simp add: replay_spec_def)

lemma read_persisted_links_ok:
  "fst (read_persisted_links (Inr dir) Read_ok (c\<lparr>output_file := Some file\<rparr>))
   = replay_spec (completed_hashes dir) file"
  by (simp add: read_persisted_links_def persisted_links_spec)

lemma comment_file_completed:
  "comment_path a \<in> set dir \<Longrightarrow> a \<in> completed_hashes dir"
proof -
  assume a: "comment_path a \<in> set dir"
  have "suffix (comment_path a) = ascii ''.txt''" and "stem (comment_path a) = a"
    by (simp_all add: comment_path_def)
  then show ?thesis using a unfolding completed_hashes_def
    by force
qed

text \<open>
  Claim C2.  For every content of the link file and every listing of the
  comment directory, the reader yields, in file order, exactly the pairs parsed
  from the lines that hold the key-value separator and whose key is not the
  stem of a listed \<^verbatim>\<open>.txt\<close> entry.  A line without the key-value separator
  parses to nothing and is skipped: the stream goes on with the lines after
  it.  An address whose comment file is listed is never yielded.
\<close>

theorem replay_yields_uncompleted_links:
  "fst (read_persisted_links (Inr dir) Read_ok (c\<lparr>output_file := Some lns\<rparr>))
     = replay_spec (completed_hashes dir) lns
   \<and> (KEY_VALUE_SEPARATOR \<notin> set bad \<longrightarrow>
        parse_line bad = None
        \<and> fst (read_persisted_links (Inr dir) Read_ok (c\<lparr>output_file := Some (pre @ bad # post)\<rparr>))
          = fst (read_persisted_links (Inr dir) Read_ok (c\<lparr>output_file := Some pre\<rparr>))
            @ fst (read_persisted_links (Inr dir) Read_ok (c\<lparr>output_file := Some post\<rparr>)))
   \<and> (comment_path a \<in> set dir \<longrightarrow>
        a \<notin> fst ` set (fst (read_persisted_links (Inr dir) Read_ok (c\<lparr>output_file := Some lns\<rparr>))))"
proof (intro conjI impI)
  show "fst (read_persisted_links (Inr dir) Read_ok (c\<lparr>output_file := Some lns\<rparr>))
     = replay_spec (completed_hashes dir) lns"
    by (simp add: read_persisted_links_ok)
  {
    assume bad: "KEY_VALUE_SEPARATOR \<notin> set bad"
    show "parse_line bad = None" using bad by (simp add: parse_line_None)
    show "fst (read_persisted_links (Inr dir) Read_ok (c\<lparr>output_file := Some (pre @ bad # post)\<rparr>))
          = fst (read_persisted_links (Inr dir) Read_ok (c\<lparr>output_file := Some pre\<rparr>))
            @ fst (read_persisted_links (Inr dir) Read_ok (c\<lparr>output_file := Some post\<rparr>))"
      using bad by (simp add: read_persisted_links_ok replay_spec_append replay_spec_malformed)
  }
  {
    assume a: "comment_path a \<in> set dir"
    show "a \<notin> fst ` set (fst (read_persisted_links (Inr dir) Read_ok (c\<lparr>output_file := Some lns\<rparr>)))"
      using comment_file_completed [OF a] replay_spec_not_completed
      by (auto simp: read_persisted_links_ok)
  }
qed


theorem replay_yields_uncompleted_links_witness:
  "KEY_VALUE_SEPARATOR \<notin> set [65, 66]
   \<and> comment_path [1] \<in> set [comment_path [1], \<lparr>stem = [2], suffix = ascii ''.log''\<rparr>]
   \<and> fst (read_persisted_links (Inr [comment_path [1], \<lparr>stem = [2], suffix = ascii ''.log''\<rparr>]) Read_ok
        (\<lparr>links = [], last_written_key = None, batch_size = 200, max_links = 10000,
          scroll_retries = 5, output_file = None, logged = []\<rparr>
         \<lparr>output_file := Some ([record_line [1] [101]] @ [65, 66] # [record_line [2] [102]])\<rparr>))
     = [([2], [102])]"
proof -
  have p1: "parse_line (record_line [1] [101]) = Some ([1], [101])"
    by (rule parse_record_line_exact) (simp_all add: KEY_VALUE_SEPARATOR_def is_space_def)
  have p2: "parse_line (record_line [2] [102]) = Some ([2], [102])"
    by (rule parse_record_line_exact) (simp_all add: KEY_VALUE_SEPARATOR_def is_space_def)
  have bad: "KEY_VALUE_SEPARATOR \<notin> set [65, 66]"
    by (simp add: KEY_VALUE_SEPARATOR_def)
  show ?thesis
    using replay_yields_uncompleted_links
      [where dir = "[comment_path [1], \<lparr>stem = [2], suffix = ascii ''.log''\<rparr>]"
         and c = "\<lparr>links = [], last_written_key = None, batch_size = 200, max_links = 10000,
            scroll_retries = 5, output_file = None, logged = []\<rparr>"
         and lns = "[record_line [1] [101]] @ [65, 66] # [record_line [2] [102]]"
         and bad = "[65, 66]" and pre = "[record_line [1] [101]]" and post = "[record_line [2] [102]]"
         and a = "[1]"]
      p1 p2 bad
    by (simp add: replay_spec_def List.map_filter_simps completed_hashes_def comment_path_def ascii_def)
qed

text \<open>
  Claim C10.  When listing the comment directory raises, the reader logs one
  error and yields nothing, whatever the link file holds.
\<close>

theorem unlistable_comment_dir_yields_nothing:
  "read_persisted_links (Inl e) rd c = ([], [ERROR])"
  by (simp add: read_persisted_links_def)

lemma load_last_line_key:
  "output_file c = Some (earlier @ [l]) \<Longrightarrow>
   last_written_key (fst (load_last_written_key Read_ok c))
   = (case parse_line l of Some (key, val) \<Rightarrow> Some key | None \<Rightarrow> last_written_key c)"
  by (simp add: load_last_written_key_def split: option.splits)

lemma load_lines_read:
  "output_file c = Some lns \<Longrightarrow> snd (load_last_written_key Read_ok c) = length lns"
  by (simp add: load_last_written_key_def split: option.splits)

lemma init_last_line_key:
  "last_written_key (fst (AnchorCrawler_init Read_ok (Some (earlier @ [l]))))
   = (case parse_line l of Some (key, val) \<Rightarrow> Some key | None \<Rightarrow> None)"
  unfolding AnchorCrawler_init_def
  by (subst load_last_line_key [where earlier = earlier and l = l])
     (simp_all split: option.splits)

text \<open>
  Claim C6, as amended.  When the last line of the link file is a record whose
  key holds no key-value separator, the constructor recovers that key as the
  cursor, whatever the earlier lines are.  The recovery reads every line of the
  file, and the cursor it recovers depends on the last line only.  With a
  missing or an empty file the cursor stays absent, and the next flush writes
  the whole working set from its beginning.
\<close>

theorem cursor_recovery_reads_whole_file:
  "(KEY_VALUE_SEPARATOR \<notin> set key \<longrightarrow>
      last_written_key (fst (AnchorCrawler_init Read_ok (Some (earlier @ [record_line key val]))))
      = Some key)
   \<and> snd (AnchorCrawler_init Read_ok (Some lns)) = length lns
   \<and> last_written_key (fst (AnchorCrawler_init Read_ok (Some (earlier @ [l]))))
     = last_written_key (fst (AnchorCrawler_init Read_ok (Some [l])))
   \<and> last_written_key (fst (AnchorCrawler_init rd None)) = None
   \<and> last_written_key (fst (AnchorCrawler_init rd (Some []))) = None
   \<and> output_file (save_links_incrementally Io_ok ((fst (AnchorCrawler_init rd None))\<lparr>links := ls\<rparr>))
     = Some (map (\<lambda>(k, v). record_line k v) ls)
   \<and> output_file (save_links_incrementally Io_ok ((fst (AnchorCrawler_init rd (Some [])))\<lparr>links := ls\<rparr>))
     = Some (map (\<lambda>(k, v). record_line k v) ls)"
proof (intro conjI impI)
  {
    assume k: "KEY_VALUE_SEPARATOR \<notin> set key"
    show "last_written_key (fst (AnchorCrawler_init Read_ok (Some (earlier @ [record_line key val]))))
      = Some key"
      by (simp add: init_last_line_key parse_record_line [OF k])
  }
  show "snd (AnchorCrawler_init Read_ok (Some lns)) = length lns"
    unfolding AnchorCrawler_init_def by (rule load_lines_read) simp
  show "last_written_key (fst (AnchorCrawler_init Read_ok (Some (earlier @ [l]))))
     = last_written_key (fst (AnchorCrawler_init Read_ok (Some [l])))"
    using init_last_line_key [of "[]" l] by (simp add: init_last_line_key)
  show none: "last_written_key (fst (AnchorCrawler_init rd None)) = None"
    by (simp add: AnchorCrawler_init_def load_last_written_key_def)
  show empty: "last_written_key (fst (AnchorCrawler_init rd (Some []))) = None"
    by (simp add: AnchorCrawler_init_def load_last_written_key_def)
  have f1: "output_file (fst (AnchorCrawler_init rd None)) = None"
    by (simp add: AnchorCrawler_init_def load_last_written_key_def)
  have f2: "output_file (fst (AnchorCrawler_init rd (Some []))) = Some []"
    by (simp add: AnchorCrawler_init_def load_last_written_key_def)
  show "output_file (save_links_incrementally Io_ok ((fst (AnchorCrawler_init rd None))\<lparr>links := ls\<rparr>))
     = Some (map (\<lambda>(k, v). record_line k v) ls)"
    by (simp add: flush_file none f1 records_after_cursor_def)
  show "output_file (save_links_incrementally Io_ok ((fst (AnchorCrawler_init rd (Some [])))\<lparr>links := ls\<rparr>))
     = Some (map (\<lambda>(k, v). record_line k v) ls)"
    by (simp add: flush_file empty f2 records_after_cursor_def)
qed

theorem cursor_recovery_reads_whole_file_witness:
  "KEY_VALUE_SEPARATOR \<notin> set [2]
   \<and> last_written_key (fst (AnchorCrawler_init Read_ok
        (Some ([record_line [1] [10]] @ [record_line [2] [20]])))) = Some [2]"
  using cursor_recovery_reads_whole_file
    [where key = "[2]" and earlier = "[record_line [1] [10]]" and val = "[20]"
       and lns = "[]" and l = "[]" and rd = Read_ok and ls = "[]"]
  by (simp add: KEY_VALUE_SEPARATOR_def)

text \<open>
  Claim C6 as stated has the recovery read only the final record.  On a file of
  three records it reads three lines.
\<close>

theorem recovery_scans_every_line:
  "\<not> snd (AnchorCrawler_init Read_ok
            (Some [record_line [1] [10], record_line [2] [20], record_line [3] [30]])) \<le> 1"
  by (simp add: AnchorCrawler_init_def load_last_written_key_def split: option.splits)

section \<open>Partition of the stream among the workers\<close>


lemma indexed_enumerate: "indexed xs = List.enumerate 0 xs"
  by (simp add: indexed_def enumerate_eq_zip)

lemma loop_on_enumerated:
  "link_generator_loop (int n) w N (List.enumerate n xs)
   = filter (\<lambda>p. int (fst p) mod N = w) (List.enumerate n xs)"
proof (induction xs arbitrary: n)
  case Nil
  show ?case by simp
next
  case (Cons x xs)
  show ?case using Cons [of "Suc n"] by (simp add: add.commute)
qed

lemma loop_by_index:
  "link_generator_loop (int n) w N xs
   = map snd (filter (\<lambda>p. int (fst p) mod N = w) (List.enumerate n xs))"
proof (induction xs arbitrary: n)
  case Nil
  show ?case by simp
next
  case (Cons x xs)
  show ?case using Cons [of "Suc n"] by (simp add: add.commute)
qed

lemma generator_on_indexed:
  "1 \<le> N \<Longrightarrow>
   get_link_generator (indexed xs) w N = (filter (\<lambda>p. int (fst p) mod N = w) (indexed xs), None)"
  using loop_on_enumerated [of 0 w N xs]
  by (simp add: get_link_generator_def indexed_enumerate)

lemma generator_by_index:
  "1 \<le> N \<Longrightarrow>
   get_link_generator xs w N = (map snd (filter (\<lambda>p. int (fst p) mod N = w) (indexed xs)), None)"
  using loop_by_index [of 0 w N xs]
  by (simp add: get_link_generator_def indexed_enumerate)

lemma indexed_member:
  assumes "i < length xs"
  shows "(i, xs ! i) \<in> set (indexed xs)"
proof -
  have "indexed xs ! i = (i, xs ! i)" and "i < length (indexed xs)"
    using assms by (simp_all add: indexed_def)
  then show ?thesis by (metis nth_mem)
qed

lemma workers_cover:
  assumes "1 \<le> N"
  shows "\<Union> (set ` set (run_all_instances N (indexed xs))) = set (indexed xs)"
proof
  show "\<Union> (set ` set (run_all_instances N (indexed xs))) \<subseteq> set (indexed xs)"
    using assms by (auto simp: run_all_instances_def generator_on_indexed)
next
  show "set (indexed xs) \<subseteq> \<Union> (set ` set (run_all_instances N (indexed xs)))"
  proof
    fix p assume p: "p \<in> set (indexed xs)"
    let ?w = "nat (int (fst p) mod N)"
    have "0 \<le> int (fst p) mod N" and "int (fst p) mod N < N" using assms by simp_all
    then have w: "?w < nat N" and eq: "int ?w = int (fst p) mod N" by simp_all
    have "p \<in> set (fst (get_link_generator (indexed xs) (int ?w) N))"
      using p eq assms by (simp add: generator_on_indexed)
    moreover have "fst (get_link_generator (indexed xs) (int ?w) N) \<in> set (run_all_instances N (indexed xs))"
      using w unfolding run_all_instances_def by (metis (no_types, lifting) atLeastLessThan_iff image_eqI list.set_map set_upt zero_le)
    ultimately show "p \<in> \<Union> (set ` set (run_all_instances N (indexed xs)))" by blast
  qed
qed

lemma set_indexed:
  "p \<in> set (indexed xs) \<longleftrightarrow> fst p < length xs \<and> snd p = xs ! fst p"
proof
  assume "p \<in> set (indexed xs)"
  then obtain n where "[0..<length xs] ! n = fst p" "xs ! n = snd p" "n < length xs"
    unfolding indexed_def in_set_zip by auto
  then show "fst p < length xs \<and> snd p = xs ! fst p" by auto
next
  assume a: "fst p < length xs \<and> snd p = xs ! fst p"
  then have "(fst p, xs ! fst p) \<in> set (indexed xs)" using indexed_member by blast
  then show "p \<in> set (indexed xs)" using a by (metis prod.collapse)
qed

lemma member_of_worker:
  assumes "1 \<le> N"
  shows "x \<in> set (fst (get_link_generator xs w N))
         \<longleftrightarrow> (\<exists>i < length xs. xs ! i = x \<and> int i mod N = w)"
proof
  assume "x \<in> set (fst (get_link_generator xs w N))"
  then have "x \<in> snd ` set (filter (\<lambda>p. int (fst p) mod N = w) (indexed xs))"
    by (simp add: generator_by_index [OF assms])
  then obtain p where "p \<in> set (filter (\<lambda>p. int (fst p) mod N = w) (indexed xs))" "snd p = x"
    by (rule imageE) simp
  then have p: "p \<in> set (indexed xs)" "int (fst p) mod N = w" "snd p = x"
    by simp_all
  have "fst p < length xs" and "xs ! fst p = x"
    using p(1) p(3) set_indexed [of p xs] by simp_all
  then show "\<exists>i < length xs. xs ! i = x \<and> int i mod N = w"
    using p(2) by (intro exI [of _ "fst p"]) simp
next
  assume "\<exists>i < length xs. xs ! i = x \<and> int i mod N = w"
  then obtain i where i: "i < length xs" "xs ! i = x" "int i mod N = w" by blast
  have "(i, x) \<in> set (indexed xs)" using indexed_member [OF i(1)] i(2) by simp
  then have "(i, x) \<in> set (filter (\<lambda>p. int (fst p) mod N = w) (indexed xs))"
    using i(3) by simp
  then have "snd (i, x) \<in> snd ` set (filter (\<lambda>p. int (fst p) mod N = w) (indexed xs))"
    by (rule imageI)
  then show "x \<in> set (fst (get_link_generator xs w N))"
    by (simp add: generator_by_index [OF assms])
qed

lemma workers_cover_values:
  assumes "1 \<le> N"
  shows "\<Union> (set ` set (run_all_instances N xs)) = set xs"
proof (rule set_eqI)
  fix x
  show "x \<in> \<Union> (set ` set (run_all_instances N xs)) \<longleftrightarrow> x \<in> set xs"
  proof
    assume "x \<in> \<Union> (set ` set (run_all_instances N xs))"
    then obtain k where "x \<in> set (fst (get_link_generator xs (int k) N))"
      unfolding run_all_instances_def by auto
    then have "\<exists>i < length xs. xs ! i = x \<and> int i mod N = int k"
      by (rule iffD1 [OF member_of_worker [OF assms]])
    then obtain i where "i < length xs" "xs ! i = x" by blast
    then show "x \<in> set xs" by auto
  next
    assume "x \<in> set xs"
    then obtain i where i: "i < length xs" "xs ! i = x" by (metis in_set_conv_nth)
    let ?k = "nat (int i mod N)"
    have "0 \<le> int i mod N" and "int i mod N < N" using assms by simp_all
    then have k: "?k < nat N" and eq: "int i mod N = int ?k" by simp_all
    have "\<exists>j < length xs. xs ! j = x \<and> int j mod N = int ?k"
      using i eq by (intro exI [of _ i]) simp
    then have "x \<in> set (fst (get_link_generator xs (int ?k) N))"
      by (rule iffD2 [OF member_of_worker [OF assms]])
    moreover have "fst (get_link_generator xs (int ?k) N) \<in> set (run_all_instances N xs)"
      unfolding run_all_instances_def set_map
    proof (rule imageI)
      show "?k \<in> set [0..<nat N]" using k by simp
    qed
    ultimately show "x \<in> \<Union> (set ` set (run_all_instances N xs))" by blast
  qed
qed

lemma workers_disjoint_values:
  assumes N: "1 \<le> N" and d: "distinct xs" and w: "w \<noteq> w'"
  shows "set (fst (get_link_generator xs w N)) \<inter> set (fst (get_link_generator xs w' N)) = {}"
proof -
  {
    fix x assume "x \<in> set (fst (get_link_generator xs w N))"
      and "x \<in> set (fst (get_link_generator xs w' N))"
    then have "\<exists>i < length xs. xs ! i = x \<and> int i mod N = w"
      and "\<exists>j < length xs. xs ! j = x \<and> int j mod N = w'"
      by (simp_all only: member_of_worker [OF N])
    then obtain i j where i: "i < length xs" "xs ! i = x" "int i mod N = w"
      and j: "j < length xs" "xs ! j = x" "int j mod N = w'"
      by blast
    then have "i = j" using d by (metis nth_eq_iff_index_eq)
    then have False using i j w by simp
  }
  then show ?thesis by blast
qed

text \<open>
  Claim C4.  For every worker count \<open>N \<ge> 1\<close> and every stream, the filter of
  worker \<open>w\<close> yields, in stream order and without raising, the items whose
  0-based index \<open>i\<close> satisfies \<open>i mod N = w\<close>: the item at index \<open>i\<close> goes to
  worker \<open>i mod N\<close> and to no other.  Over one pass on the same stream the
  \<open>N\<close> workers' sets of indexed items are pairwise disjoint and their union is
  the whole stream; the union of the items themselves is the stream, and the
  item sets are disjoint as well when no item occurs twice in the stream.
\<close>

theorem partition_by_index_modulo:
  "1 \<le> N \<longrightarrow>
     get_link_generator xs w N
       = (map snd (filter (\<lambda>p. int (fst p) mod N = w) (indexed xs)), None)
   \<and> (i < length xs \<longrightarrow>
        ((i, xs ! i) \<in> set (fst (get_link_generator (indexed xs) w N)) \<longleftrightarrow> w = int i mod N))
   \<and> (w \<noteq> w' \<longrightarrow>
        set (fst (get_link_generator (indexed xs) w N))
        \<inter> set (fst (get_link_generator (indexed xs) w' N)) = {})
   \<and> length (run_all_instances N (indexed xs)) = nat N
   \<and> \<Union> (set ` set (run_all_instances N (indexed xs))) = set (indexed xs)
   \<and> \<Union> (set ` set (run_all_instances N xs)) = set xs
   \<and> (distinct xs \<and> w \<noteq> w' \<longrightarrow>
        set (fst (get_link_generator xs w N)) \<inter> set (fst (get_link_generator xs w' N)) = {})"
proof (intro impI conjI)
  assume N: "1 \<le> N"
  show "get_link_generator xs w N
       = (map snd (filter (\<lambda>p. int (fst p) mod N = w) (indexed xs)), None)"
    by (rule generator_by_index [OF N])
  show "\<Union> (set ` set (run_all_instances N (indexed xs))) = set (indexed xs)"
    by (rule workers_cover [OF N])
  show "length (run_all_instances N (indexed xs)) = nat N"
    by (simp add: run_all_instances_def)
  show "\<Union> (set ` set (run_all_instances N xs)) = set xs"
    by (rule workers_cover_values [OF N])
  {
    assume "distinct xs \<and> w \<noteq> w'"
    then show "set (fst (get_link_generator xs w N)) \<inter> set (fst (get_link_generator xs w' N)) = {}"
      using workers_disjoint_values [OF N] by blast
  }
  {
    assume "i < length xs"
    then show "(i, xs ! i) \<in> set (fst (get_link_generator (indexed xs) w N)) \<longleftrightarrow> w = int i mod N"
      using indexed_member [of i xs] by (auto simp: generator_on_indexed [OF N])
  }
  {
    assume "w \<noteq> w'"
    then show "set (fst (get_link_generator (indexed xs) w N))
        \<inter> set (fst (get_link_generator (indexed xs) w' N)) = {}"
      by (auto simp: generator_on_indexed [OF N])
  }
qed


theorem partition_by_index_modulo_witness:
  "(1::int) \<le> 3 \<and> (4::nat) < length [10, 20, 30, 40, 50::nat] \<and> (1::int) \<noteq> 2
   \<and> distinct [10, 20, 30, 40, 50::nat]
   \<and> get_link_generator [10, 20, 30, 40, 50::nat] 1 3 = ([20, 50], None)
   \<and> (4, [10, 20, 30, 40, 50::nat] ! 4) \<in> set (fst (get_link_generator (indexed [10, 20, 30, 40, 50]) 1 3))
   \<and> run_all_instances 3 [10, 20, 30, 40, 50::nat] = [[10, 40], [20, 50], [30]]"
  using partition_by_index_modulo [of 3 "[10, 20, 30, 40, 50::nat]" 1 4 2]
  by (simp add: indexed_def run_all_instances_def get_link_generator_def upt_conv_Cons)

section \<open>The idle timeout\<close>


lemma idle_wait_iff:
  "idle_wait start_time timeout clock \<longleftrightarrow> (\<exists>now \<in> set clock. timeout \<le> now - start_time)"
  by (induction clock) auto

lemma wait_loop_yielded:
  "length xs \<le> length clock \<Longrightarrow> yielded (wait_loop start_time timeout xs clock) = xs"
proof (induction xs arbitrary: start_time clock)
  case Nil
  show ?case by simp
next
  case (Cons x xs)
  then obtain now rest where c: "clock = now # rest" by (cases clock) auto
  then show ?case using Cons by (simp add: Let_def)
qed

lemma wait_loop_finished:
  "length xs \<le> length clock \<Longrightarrow>
   finished (wait_loop start_time timeout xs clock)
   = idle_wait ((start_time # clock) ! length xs) timeout (drop (length xs) clock)"
proof (induction xs arbitrary: start_time clock)
  case Nil
  show ?case by simp
next
  case (Cons x xs)
  then obtain now rest where c: "clock = now # rest" by (cases clock) auto
  then show ?case using Cons by (simp add: Let_def)
qed

lemma wait_loop_warnings:
  "length xs \<le> length clock \<Longrightarrow>
   warnings (wait_loop start_time timeout xs clock)
   = (if finished (wait_loop start_time timeout xs clock) then [WARNING] else [])"
proof (induction xs arbitrary: start_time clock)
  case Nil
  show ?case by simp
next
  case (Cons x xs)
  then obtain now rest where c: "clock = now # rest" by (cases clock) auto
  then show ?case using Cons by (simp add: Let_def)
qed

lemma wait_for_links_unfold:
  assumes "length xs < length clock"
  shows "yielded (wait_for_links xs timeout clock) = xs"
    and "finished (wait_for_links xs timeout clock)
         \<longleftrightarrow> (\<exists>now \<in> set (drop (Suc (length xs)) clock). timeout \<le> now - clock ! length xs)"
    and "warnings (wait_for_links xs timeout clock)
         = (if finished (wait_for_links xs timeout clock) then [WARNING] else [])"
proof -
  obtain now rest where c: "clock = now # rest" using assms by (cases clock) auto
  then have l: "length xs \<le> length rest" using assms by simp
  show "yielded (wait_for_links xs timeout clock) = xs"
    using c wait_loop_yielded [OF l] by (simp add: wait_for_links_def)
  show "finished (wait_for_links xs timeout clock)
         \<longleftrightarrow> (\<exists>now \<in> set (drop (Suc (length xs)) clock). timeout \<le> now - clock ! length xs)"
    using c wait_loop_finished [OF l, of now timeout]
    by (simp add: wait_for_links_def idle_wait_iff)
  show "warnings (wait_for_links xs timeout clock)
         = (if finished (wait_for_links xs timeout clock) then [WARNING] else [])"
    using c wait_loop_warnings [OF l, of now timeout] by (simp add: wait_for_links_def)
qed

text \<open>
  Claim C8.  For every finite stream, with the timeout of 60 seconds that
  \<^verbatim>\<open>process_links\<close> passes and a clock that is read while the generator
  runs, the wrapper yields each link of the stream in order.  Once the stream
  is exhausted it ends, with one warning logged, as soon as a reading of the
  clock is at least 60 seconds after the reading taken when the last link was
  handed over (the first reading for an empty stream); as long as every
  reading is earlier than that, it keeps waiting and logs nothing.
\<close>

theorem idle_timeout_ends_worker:
  "length all_links < length clock \<longrightarrow>
     yielded (wait_for_links all_links 60 clock) = all_links
   \<and> ((\<exists>now \<in> set (drop (Suc (length all_links)) clock). 60 \<le> now - clock ! length all_links) \<longrightarrow>
        finished (wait_for_links all_links 60 clock)
        \<and> warnings (wait_for_links all_links 60 clock) = [WARNING])
   \<and> ((\<forall>now \<in> set (drop (Suc (length all_links)) clock). now - clock ! length all_links < 60) \<longrightarrow>
        \<not> finished (wait_for_links all_links 60 clock)
        \<and> warnings (wait_for_links all_links 60 clock) = [])"
proof (intro impI conjI)
  assume l: "length all_links < length clock"
  show "yielded (wait_for_links all_links 60 clock) = all_links"
    by (rule wait_for_links_unfold(1) [OF l])
  {
    assume "\<exists>now \<in> set (drop (Suc (length all_links)) clock). 60 \<le> now - clock ! length all_links"
    then show f: "finished (wait_for_links all_links 60 clock)"
      by (simp only: wait_for_links_unfold(2) [OF l])
    show "warnings (wait_for_links all_links 60 clock) = [WARNING]"
      using f wait_for_links_unfold(3) [OF l, of 60] by simp
  }
  {
    assume "\<forall>now \<in> set (drop (Suc (length all_links)) clock). now - clock ! length all_links < 60"
    then have "\<not> (\<exists>now \<in> set (drop (Suc (length all_links)) clock). 60 \<le> now - clock ! length all_links)"
      by (meson linorder_not_le)
    then show f: "\<not> finished (wait_for_links all_links 60 clock)"
      using wait_for_links_unfold(2) [OF l, of 60] by blast
    show "warnings (wait_for_links all_links 60 clock) = []"
      using f wait_for_links_unfold(3) [OF l, of 60] by simp
  }
qed

theorem idle_timeout_ends_worker_witness:
  "length [[1::nat], [2]] < length [0, 5, 9, 10, 40, 70::real]
   \<and> (70::real) \<in> set (drop (Suc (length [[1::nat], [2]])) [0, 5, 9, 10, 40, 70::real])
   \<and> (60::real) \<le> 70 - [0, 5, 9, 10, 40, 70::real] ! length [[1::nat], [2]]
   \<and> wait_for_links [[1::nat], [2]] 60 [0, 5, 9, 10, 40, 70]
     = \<lparr>yielded = [[1], [2]], warnings = [WARNING], finished = True\<rparr>
   \<and> length [[1::nat], [2]] < length [0, 5, 9, 10, 40::real]
   \<and> (10::real) - [0, 5, 9, 10, 40::real] ! length [[1::nat], [2]] < 60
   \<and> (40::real) - [0, 5, 9, 10, 40::real] ! length [[1::nat], [2]] < 60
   \<and> wait_for_links [[1::nat], [2]] 60 [0, 5, 9, 10, 40]
     = \<lparr>yielded = [[1], [2]], warnings = [], finished = False\<rparr>"
  using idle_timeout_ends_worker [of "[[1::nat], [2]]" "[0, 5, 9, 10, 40, 70]"]
    idle_timeout_ends_worker [of "[[1::nat], [2]]" "[0, 5, 9, 10, 40]"]
  by (simp add: wait_for_links_def Let_def)

section \<open>The plugins\<close>


text \<open>
  With \<^verbatim>\<open>random()\<close> raising, no plugin ever clicks or returns true.  Were
  \<^verbatim>\<open>random()\<close> to return a number, a button whose three clicks all fail
  would still be counted, since \<^verbatim>\<open>_safe_click\<close> swallows the failure.
\<close>

lemma safe_click_without_random:
  "safe_click (Inl e) n results = (False, replicate n WARNING)"
  by (induction n) simp_all

lemma click_each_without_random:
  "fst (click_each (Inl e) i buttons) = 0 \<and> fst (snd (click_each (Inl e) i buttons)) = []"
proof (induction buttons arbitrary: i)
  case Nil
  show ?case by simp
next
  case (Cons b bs)
  obtain t cl lg where r: "click_each (Inl e) (Suc i) bs = (t, cl, lg)"
    by (cases "click_each (Inl e) (Suc i) bs") auto
  have "t = 0" and "cl = []" using Cons [of "Suc i"] r by simp_all
  then show ?case using r by (simp add: safe_click_without_random)
qed

lemma plugin_never_clicks:
  "fst (click_buttons_once random_call query) = False
   \<and> fst (snd (click_buttons_once random_call query)) = []"
proof (cases query)
  case None
  then show ?thesis by (simp add: click_buttons_once_def)
next
  case (Some buttons)
  show ?thesis
  proof (cases buttons)
    case Nil
    then show ?thesis using Some by (simp add: click_buttons_once_def)
  next
    case (Cons b bs)
    obtain t cl lg where r: "click_each (Inl TypeError) 0 (b # bs) = (t, cl, lg)"
      by (cases "click_each (Inl TypeError) 0 (b # bs)") auto
    have "t = 0" and "cl = []"
      using click_each_without_random [of TypeError 0 "b # bs"] r by simp_all
    then show ?thesis using Some Cons r
      by (simp add: click_buttons_once_def random_call_def del: click_each.simps)
  qed
qed

lemma failed_clicks_are_counted:
  "click_buttons_once (Inr t)
     (Some [\<lparr>scroll_ok = True, click_results = [False, False, False], settle_ok = True, mouse_ok = True\<rparr>])
   = (True, [], [INFO, DEBUG, WARNING, WARNING, WARNING, DEBUG, INFO])"
  by (simp add: click_buttons_once_def numeral_3_eq_3)

text \<open>
  On a page whose only matched button can be scrolled into view and accepts
  the first click, \<^verbatim>\<open>click_expand_buttons\<close> clicks nothing and returns
  false.
\<close>

lemma clickable_button_is_not_clicked:
  "click_expand_buttons
     (\<lambda>sel. Some [\<lparr>scroll_ok = True, click_results = [True], settle_ok = True, mouse_ok = True\<rparr>])
   = (False, [], [INFO, DEBUG, WARNING, WARNING, WARNING, WARNING, INFO])"
  by (simp add: click_expand_buttons_def click_buttons_once_def random_call_def numeral_3_eq_3)

text \<open>
  What the loop does for the buttons after any others is what it does for them
  alone: no outcome of an earlier button ends the loop.
\<close>

lemma click_each_append:
  "click_each rnd i (pre @ post)
   = (case click_each rnd i pre of
        (t1, c1, l1) \<Rightarrow>
          (case click_each rnd (i + length pre) post of
             (t2, c2, l2) \<Rightarrow> (t1 + t2, c1 @ c2, l1 @ l2)))"
proof (induction pre arbitrary: i)
  case Nil
  show ?case by (simp split: prod.splits)
next
  case (Cons b pre)
  obtain t1 c1 l1 where r1: "click_each rnd (Suc i) pre = (t1, c1, l1)"
    by (cases "click_each rnd (Suc i) pre") auto
  obtain t2 c2 l2 where r2: "click_each rnd (Suc i + length pre) post = (t2, c2, l2)"
    by (cases "click_each rnd (Suc i + length pre) post") auto
  have whole: "click_each rnd (Suc i) (pre @ post) = (t1 + t2, c1 @ c2, l1 @ l2)"
    using Cons [of "Suc i"] r1 r2 by simp
  obtain ok lg where sc: "safe_click rnd 3 (click_results b) = (ok, lg)"
    by (cases "safe_click rnd 3 (click_results b)") auto
  show ?case using whole r1 r2 sc
    by (cases rnd) (simp_all add: Let_def)
qed

text \<open>
  Claim C7.  For every page, each of the four plugins returns true exactly
  when it has clicked at least one of the matched buttons (in this module both
  sides are false on every page, since \<^verbatim>\<open>random()\<close> raises before any click
  and before \<open>total_clicks\<close> is incremented).  The handling of one matched
  button, failed or not, does not end the loop: the count, the clicks and the
  log of the loop on a list of buttons are those of its first part followed by
  those of the remaining buttons.
\<close>

theorem plugin_reports_activation:
  "(fst (click_close_button page) \<longleftrightarrow> fst (snd (click_close_button page)) \<noteq> [])
   \<and> (fst (click_expand_buttons page) \<longleftrightarrow> fst (snd (click_expand_buttons page)) \<noteq> [])
   \<and> (fst (click_more_replies_buttons page) \<longleftrightarrow> fst (snd (click_more_replies_buttons page)) \<noteq> [])
   \<and> (fst (click_view_more_comments page) \<longleftrightarrow> fst (snd (click_view_more_comments page)) \<noteq> [])
   \<and> fst (click_each rnd i (pre @ post))
     = fst (click_each rnd i pre) + fst (click_each rnd (i + length pre) post)
   \<and> fst (snd (click_each rnd i (pre @ post)))
     = fst (snd (click_each rnd i pre)) @ fst (snd (click_each rnd (i + length pre) post))
   \<and> snd (snd (click_each rnd i (pre @ post)))
     = snd (snd (click_each rnd i pre)) @ snd (snd (click_each rnd (i + length pre) post))"
proof (intro conjI)
  show "fst (click_close_button page) \<longleftrightarrow> fst (snd (click_close_button page)) \<noteq> []"
    unfolding click_close_button_def using plugin_never_clicks [of "page Close_button"] by simp
  show "fst (click_expand_buttons page) \<longleftrightarrow> fst (snd (click_expand_buttons page)) \<noteq> []"
    unfolding click_expand_buttons_def using plugin_never_clicks [of "page Expand_buttons"] by simp
  show "fst (click_more_replies_buttons page) \<longleftrightarrow> fst (snd (click_more_replies_buttons page)) \<noteq> []"
    unfolding click_more_replies_buttons_def
    using plugin_never_clicks [of "page More_replies_buttons"] by simp
  show "fst (click_view_more_comments page) \<longleftrightarrow> fst (snd (click_view_more_comments page)) \<noteq> []"
    unfolding click_view_more_comments_def
    using plugin_never_clicks [of "page View_more_comments"] by simp
  show "fst (click_each rnd i (pre @ post))
     = fst (click_each rnd i pre) + fst (click_each rnd (i + length pre) post)"
    by (simp add: click_each_append split: prod.splits)
  show "fst (snd (click_each rnd i (pre @ post)))
     = fst (snd (click_each rnd i pre)) @ fst (snd (click_each rnd (i + length pre) post))"
    by (simp add: click_each_append split: prod.splits)
  show "snd (snd (click_each rnd i (pre @ post)))
     = snd (snd (click_each rnd i pre)) @ snd (snd (click_each rnd (i + length pre) post))"
    by (simp add: click_each_append split: prod.splits)
qed

section \<open>Comment extraction\<close>


lemma nothing_new: "is_new_content_loaded cs cs = []"
  by (simp add: is_new_content_loaded_def)

lemma all_new: "is_new_content_loaded [] cs = cs"
  by (simp add: is_new_content_loaded_def)

lemma idle_iterations:
  "retries + n = 5 \<Longrightarrow>
   fetch_loop (replicate n (Iteration cs False fs)) cs retries flush_idx cc = Some (cs, cc)"
proof (induction n arbitrary: retries)
  case 0
  then show ?case by simp
next
  case (Suc n)
  then have "retries < 5" and "Suc retries + n = 5" by simp_all
  then show ?case using Suc.IH [of "Suc retries"] by (simp add: nothing_new Let_def)
qed

lemma save_all_ok:
  "save_comments Io_ok (Some p) cs cc
   = cc\<lparr>files := (files cc)(p \<mapsto> lines_of (files cc p) @ map (\<lambda>c. c @ [NEWLINE]) cs),
        cc_logged := cc_logged cc @ [INFO]\<rparr>"
  by (simp add: save_comments_quiet [of Io_ok 0])

text \<open>
  Claim C3 has the final write cover the unflushed snippets only, so that a
  snippet flushed during the loop is not written a second time.  When the
  first iteration harvests at least \<^verbatim>\<open>COMMENT_BATCH_SIZE\<close> snippets, they are
  flushed in that iteration; after five further iterations without progress
  the loop ends, and the final \<^verbatim>\<open>_save_comments(file_name, comments)\<close> of
  \<^verbatim>\<open>process_links\<close> appends the whole list again: the comment file of the
  link holds every snippet twice.
\<close>

theorem flushed_snippets_are_written_twice:
  "COMMENT_BATCH_SIZE \<le> length cs \<and> files cc (comment_path hash_key) = None \<longrightarrow>
     map_option (\<lambda>cc'. files cc' (comment_path hash_key))
       (process_link \<lparr>goto_ok = True, iterations = replicate 6 (Iteration cs False Io_ok), final_io = Io_ok\<rparr>
          hash_key cc)
     = Some (Some (map (\<lambda>c. c @ [NEWLINE]) cs @ map (\<lambda>c. c @ [NEWLINE]) cs))"
proof
  assume a: "COMMENT_BATCH_SIZE \<le> length cs \<and> files cc (comment_path hash_key) = None"
  let ?p = "comment_path hash_key"
  let ?cc1 = "cc\<lparr>cc_output_file := Some ?p, cc_logged := cc_logged cc @ [INFO]\<rparr>"
  let ?cc2 = "save_comments Io_ok (Some ?p) cs ?cc1"
  have ne: "cs \<noteq> []" using a by (auto simp: COMMENT_BATCH_SIZE_def)
  have six: "replicate 6 (Iteration cs False Io_ok)
             = Iteration cs False Io_ok # replicate 5 (Iteration cs False Io_ok)"
    by (simp add: numeral_Bit0 numeral_Bit1)
  have "fetch_loop (replicate 6 (Iteration cs False Io_ok)) [] 0 0 ?cc1
        = fetch_loop (replicate 5 (Iteration cs False Io_ok)) cs 0 (length cs) ?cc2"
    unfolding six using a ne by (simp add: all_new Let_def)
  also have "\<dots> = Some (cs, ?cc2)"
    by (rule idle_iterations) simp
  finally have loop: "fetch_loop (replicate 6 (Iteration cs False Io_ok)) [] 0 0 ?cc1 = Some (cs, ?cc2)" .
  have "process_link \<lparr>goto_ok = True, iterations = replicate 6 (Iteration cs False Io_ok), final_io = Io_ok\<rparr>
          hash_key cc
        = Some (save_comments Io_ok (Some ?p) cs (?cc2\<lparr>cc_logged := cc_logged ?cc2 @ [INFO]\<rparr>))"
    using a loop by (simp add: process_link_def fetch_comments_def Let_def)
  then show "map_option (\<lambda>cc'. files cc' (comment_path hash_key))
       (process_link \<lparr>goto_ok = True, iterations = replicate 6 (Iteration cs False Io_ok), final_io = Io_ok\<rparr>
          hash_key cc)
     = Some (Some (map (\<lambda>c. c @ [NEWLINE]) cs @ map (\<lambda>c. c @ [NEWLINE]) cs))"
    using a by (simp add: save_all_ok)
qed

theorem flushed_snippets_are_written_twice_witness:
  "COMMENT_BATCH_SIZE \<le> length (map (\<lambda>n. [n]) [100..<150])
   \<and> files \<lparr>cc_output_file = None, files = (\<lambda>p. None), cc_logged = []\<rparr> (comment_path [1]) = None
   \<and> map_option (\<lambda>cc'. files cc' (comment_path [1]))
       (process_link
          \<lparr>goto_ok = True, iterations = replicate 6 (Iteration (map (\<lambda>n. [n]) [100..<150]) False Io_ok),
           final_io = Io_ok\<rparr>
          [1] \<lparr>cc_output_file = None, files = (\<lambda>p. None), cc_logged = []\<rparr>)
     = Some (Some (map (\<lambda>c. c @ [NEWLINE]) (map (\<lambda>n. [n]) [100..<150])
                   @ map (\<lambda>c. c @ [NEWLINE]) (map (\<lambda>n. [n]) [100..<150])))"
  using flushed_snippets_are_written_twice
    [of "map (\<lambda>n. [n]) [100..<150]" "\<lparr>cc_output_file = None, files = (\<lambda>p. None), cc_logged = []\<rparr>" "[1]"]
  by (simp add: COMMENT_BATCH_SIZE_def)

section \<open>The scroll loop\<close>



lemma flush_only_on_multiple:
  assumes "collect_links hash_link urljoin elements (links c) = (ls, None)"
    and "0 < batch_size c" and "length ls mod batch_size c \<noteq> 0"
  shows "output_file (step_crawler (scroll_iteration hash_link urljoin (Scrolled elements fs height) prev retries c))
         = output_file c
       \<and> last_written_key (step_crawler (scroll_iteration hash_link urljoin (Scrolled elements fs height) prev retries c))
         = last_written_key c"
  using assms
  by (cases height) (simp_all add: scroll_iteration_def step_crawler_def Let_def)

text \<open>
  Claim C5 has a flush in every iteration in which the size of the working set
  crosses a multiple of the batch size.  The loop flushes only when the size is
  an exact multiple at the end of the iteration.  With batch size 2 and an
  empty working set, an iteration that finds three links with different hashes
  takes the size from 0 to 3, across the threshold 2, and writes nothing; nor
  do the five iterations without growth that end the loop.
\<close>

theorem threshold_crossed_without_flush:
  "distinct [hash_link (urljoin a), hash_link (urljoin b), hash_link (urljoin d)]
   \<and> a \<noteq> [] \<and> b \<noteq> [] \<and> d \<noteq> [] \<longrightarrow>
     crosses_threshold 2 0 3
   \<and> scroll_iteration hash_link urljoin (Scrolled [Href a, Href b, Href d] Io_ok (Some 100)) 0 0
       \<lparr>links = [], last_written_key = None, batch_size = 2, max_links = 10000,
        scroll_retries = 5, output_file = None, logged = []\<rparr>
     = Next_iteration
         \<lparr>links = [(hash_link (urljoin a), urljoin a), (hash_link (urljoin b), urljoin b),
                   (hash_link (urljoin d), urljoin d)],
          last_written_key = None, batch_size = 2, max_links = 10000,
          scroll_retries = 5, output_file = None, logged = []\<rparr> 100 0
   \<and> scroll_and_collect_links hash_link urljoin
       (Scrolled [Href a, Href b, Href d] Io_ok (Some 100)
        # replicate 5 (Scrolled [Href a, Href b, Href d] Io_ok (Some 100)))
       \<lparr>links = [], last_written_key = None, batch_size = 2, max_links = 10000,
        scroll_retries = 5, output_file = None, logged = []\<rparr>
     = Some \<lparr>links = [(hash_link (urljoin a), urljoin a), (hash_link (urljoin b), urljoin b),
                   (hash_link (urljoin d), urljoin d)],
          last_written_key = None, batch_size = 2, max_links = 10000,
          scroll_retries = 5, output_file = None, logged = [WARNING]\<rparr>"
proof (intro impI conjI)
  assume h: "distinct [hash_link (urljoin a), hash_link (urljoin b), hash_link (urljoin d)]
   \<and> a \<noteq> [] \<and> b \<noteq> [] \<and> d \<noteq> []"
  let ?c0 = "\<lparr>links = [], last_written_key = None, batch_size = 2, max_links = 10000,
        scroll_retries = 5, output_file = None, logged = []\<rparr>"
  let ?ls = "[(hash_link (urljoin a), urljoin a), (hash_link (urljoin b), urljoin b),
                   (hash_link (urljoin d), urljoin d)]"
  let ?c1 = "\<lparr>links = ?ls, last_written_key = None, batch_size = 2, max_links = 10000,
          scroll_retries = 5, output_file = None, logged = []\<rparr>"
  let ?ob = "Scrolled [Href a, Href b, Href d] Io_ok (Some 100)"
  show "crosses_threshold 2 0 3" by (simp add: crosses_threshold_def)
  have col0: "collect_links hash_link urljoin [Href a, Href b, Href d] [] = (?ls, None)"
    using h by (auto simp: Let_def)
  have col1: "collect_links hash_link urljoin [Href a, Href b, Href d] ?ls = (?ls, None)"
    using h by (auto simp: Let_def)
  show first: "scroll_iteration hash_link urljoin ?ob 0 0 ?c0 = Next_iteration ?c1 100 0"
    using col0 by (simp add: scroll_iteration_def Let_def)
  have stuck: "scroll_iteration hash_link urljoin ?ob 100 r ?c1
      = (if r + 1 \<ge> 5 then Break (?c1\<lparr>logged := [WARNING]\<rparr>) else Next_iteration ?c1 100 (r + 1))" for r
    using col1 by (simp add: scroll_iteration_def Let_def)
  have loop: "r + n = 5 \<Longrightarrow> 0 < n \<Longrightarrow>
      scroll_loop hash_link urljoin (replicate n ?ob) 100 r ?c1 = Some (?c1\<lparr>logged := [WARNING]\<rparr>)" for r n
  proof (induction n arbitrary: r)
    case 0
    then show ?case by simp
  next
    case (Suc n)
    show ?case
    proof (cases "n = 0")
      case True
      then have "r + 1 \<ge> 5" using Suc.prems by simp
      then show ?thesis using True stuck [of r] by simp
    next
      case False
      then have "\<not> r + 1 \<ge> 5" and "Suc r + n = 5" and "0 < n" using Suc.prems by simp_all
      then show ?thesis using stuck [of r] Suc.IH [of "Suc r"] by simp
    qed
  qed
  show "scroll_and_collect_links hash_link urljoin (?ob # replicate 5 ?ob) ?c0
     = Some \<lparr>links = ?ls, last_written_key = None, batch_size = 2, max_links = 10000,
          scroll_retries = 5, output_file = None, logged = [WARNING]\<rparr>"
    using first loop [of 0 5] by (simp add: scroll_and_collect_links_def)
qed

theorem threshold_crossed_without_flush_witness:
  "distinct [(\<lambda>u. u) ((\<lambda>l. l) [1::nat]), (\<lambda>u. u) ((\<lambda>l. l) [2]), (\<lambda>u. u) ((\<lambda>l. l) [3])]
   \<and> [1::nat] \<noteq> [] \<and> [2::nat] \<noteq> [] \<and> [3::nat] \<noteq> []
   \<and> scroll_iteration (\<lambda>u. u) (\<lambda>l. l) (Scrolled [Href [1], Href [2], Href [3]] Io_ok (Some 100)) 0 0
       \<lparr>links = [], last_written_key = None, batch_size = 2, max_links = 10000,
        scroll_retries = 5, output_file = None, logged = []\<rparr>
     = Next_iteration
         \<lparr>links = [([1], [1]), ([2], [2]), ([3], [3])],
          last_written_key = None, batch_size = 2, max_links = 10000,
          scroll_retries = 5, output_file = None, logged = []\<rparr> 100 0"
  using threshold_crossed_without_flush [of "\<lambda>u. u" "\<lambda>l. l" "[1]" "[2]" "[3]"]
  by simp

end
